theory Spec2Isabelle
  imports Main
begin

section \<open>Data model of \<open>src/tokenization.ts\<close>\<close>

text \<open>
  The tokenizer works on JavaScript objects that are shared by reference between calls:
  \<open>JSONState\<close> objects and the \<open>parents\<close> arrays they point to. Both live in an
  explicit store, so that in-place \<open>push\<close>/\<open>pop\<close>, \<open>Array.from\<close>, \<open>clone\<close> and the
  \<open>===\<close> tests of \<open>equals\<close> mean what they mean in the source. Strings are
  modelled as \<open>string\<close>, one \<open>char\<close> per code unit.
\<close>

type_synonym addr = nat

subsection \<open>JavaScript numbers\<close>

text \<open>
  Offsets and scanner positions are JavaScript numbers, IEEE 754 doubles. The model
  holds the integer-valued ones, the two infinities and \<open>NaN\<close>; numbers with a
  fractional part are left out (offsets are whole), and the two zeros are one value.
  A sum is the exact sum rounded to the nearest double, ties to the even significand,
  and to an infinity from \<open>2 ^ 1024 - 2 ^ 970\<close> on: up to \<open>2 ^ 53\<close> in magnitude sums are
  exact, beyond that they are not (\<open>2 ^ 53 + 1\<close> is \<open>2 ^ 53\<close>).
\<close>

datatype number = Finite int | PosInfinity | NegInfinity | NaN

text \<open>The number of binary digits of a natural number.\<close>

fun bit_length :: "nat \<Rightarrow> nat" where
  "bit_length n = (if n = 0 then 0 else Suc (bit_length (n div 2)))"

declare bit_length.simps [simp del]

text \<open>The double nearest to an integer: the magnitude keeps its 53 leading binary
  digits, rounded on the digits dropped.\<close>

definition round_to_double :: "int \<Rightarrow> number" where
  "round_to_double x =
     (let m = nat \<bar>x\<bar>;
          e = bit_length m - 53;
          q = m div 2 ^ e;
          r = m mod 2 ^ e;
          q' = (if 2 ^ e < 2 * r \<or> (2 * r = 2 ^ e \<and> odd q) then q + 1 else q);
          y = int (q' * 2 ^ e)
      in if 2 ^ 1024 \<le> y then (if x < 0 then NegInfinity else PosInfinity)
         else Finite (if x < 0 then - y else y))"

text \<open>\<open>a + b\<close>, \<open>-a\<close>, \<open>a - b\<close>, \<open>a === b\<close> and \<open>a < b\<close> on numbers.\<close>

fun num_add :: "number \<Rightarrow> number \<Rightarrow> number" where
  "num_add (Finite a) (Finite b) = round_to_double (a + b)"
| "num_add NaN _ = NaN"
| "num_add _ NaN = NaN"
| "num_add PosInfinity NegInfinity = NaN"
| "num_add NegInfinity PosInfinity = NaN"
| "num_add PosInfinity _ = PosInfinity"
| "num_add _ PosInfinity = PosInfinity"
| "num_add NegInfinity _ = NegInfinity"
| "num_add _ NegInfinity = NegInfinity"

fun num_neg :: "number \<Rightarrow> number" where
  "num_neg (Finite a) = Finite (- a)"
| "num_neg PosInfinity = NegInfinity"
| "num_neg NegInfinity = PosInfinity"
| "num_neg NaN = NaN"

definition num_sub :: "number \<Rightarrow> number \<Rightarrow> number" where
  "num_sub a b = num_add a (num_neg b)"

definition strict_equals :: "number \<Rightarrow> number \<Rightarrow> bool" where
  "strict_equals a b \<longleftrightarrow> a \<noteq> NaN \<and> a = b"

fun num_less :: "number \<Rightarrow> number \<Rightarrow> bool" where
  "num_less (Finite a) (Finite b) = (a < b)"
| "num_less (Finite a) PosInfinity = True"
| "num_less NegInfinity (Finite b) = True"
| "num_less NegInfinity PosInfinity = True"
| "num_less _ _ = False"

subsection \<open>The enums and the objects\<close>

text \<open>\<open>enum JSONParent { Object = 0, Array = 1 }\<close>\<close>

datatype JSONParent = Object | Array

text \<open>
  \<open>json.ScanError\<close> and \<open>json.SyntaxKind\<close> are enums declared by the imported
  scanner package \<open>jsonc-parser\<close>; the members are listed in its order.
\<close>

datatype ScanError =
    ScanError_None
  | UnexpectedEndOfComment
  | UnexpectedEndOfString
  | UnexpectedEndOfNumber
  | InvalidUnicode
  | InvalidEscapeCharacter
  | InvalidCharacter

datatype SyntaxKind =
    OpenBraceToken
  | CloseBraceToken
  | OpenBracketToken
  | CloseBracketToken
  | CommaToken
  | ColonToken
  | NullKeyword
  | TrueKeyword
  | FalseKeyword
  | StringLiteral
  | NumericLiteral
  | LineCommentTrivia
  | BlockCommentTrivia
  | LineBreakTrivia
  | Trivia
  | Unknown
  | EOF

text \<open>
  A value of the host type \<open>languages.IState\<close>: \<open>null\<close>, a reference to a
  \<open>JSONState\<close> object of the store, or a reference to an object of some other class.
\<close>

datatype IState = Null | JSONStateRef addr | Foreign nat

text \<open>
  The fields of \<open>class JSONState\<close>. \<open>scanError\<close> is \<open>None\<close> for the \<open>null\<close> that
  \<open>getInitialState\<close> passes; \<open>parents\<close> is a reference to an array of the store.
\<close>

record JSONState =
  priv_state :: IState
  scanError :: "ScanError option"
  lastWasColon :: bool
  parents :: addr

record heap =
  objects :: "addr \<Rightarrow> JSONState"
  objects_next :: addr
  arrays :: "addr \<Rightarrow> JSONParent list"
  arrays_next :: addr

text \<open>\<open>languages.IToken\<close> and \<open>languages.ILineTokens\<close>.\<close>

record IToken =
  startIndex :: number
  scopes :: string

record ILineTokens =
  tokens :: "IToken list"
  endState :: addr

datatype error = Error string

definition TOKEN_DELIM_OBJECT :: string where "TOKEN_DELIM_OBJECT = ''delimiter.bracket.json''"
definition TOKEN_DELIM_ARRAY :: string where "TOKEN_DELIM_ARRAY = ''delimiter.array.json''"
definition TOKEN_DELIM_COLON :: string where "TOKEN_DELIM_COLON = ''delimiter.colon.json''"
definition TOKEN_DELIM_COMMA :: string where "TOKEN_DELIM_COMMA = ''delimiter.comma.json''"
definition TOKEN_VALUE_BOOLEAN :: string where "TOKEN_VALUE_BOOLEAN = ''keyword.json''"
definition TOKEN_VALUE_NULL :: string where "TOKEN_VALUE_NULL = ''keyword.json''"
definition TOKEN_VALUE_STRING :: string where "TOKEN_VALUE_STRING = ''string.value.json''"
definition TOKEN_VALUE_NUMBER :: string where "TOKEN_VALUE_NUMBER = ''number.json''"
definition TOKEN_PROPERTY_NAME :: string where "TOKEN_PROPERTY_NAME = ''string.key.json''"
definition TOKEN_COMMENT_BLOCK :: string where "TOKEN_COMMENT_BLOCK = ''comment.block.json''"
definition TOKEN_COMMENT_LINE :: string where "TOKEN_COMMENT_LINE = ''comment.line.json''"

lemmas TOKEN_defs =
  TOKEN_DELIM_OBJECT_def TOKEN_DELIM_ARRAY_def TOKEN_DELIM_COLON_def TOKEN_DELIM_COMMA_def
  TOKEN_VALUE_BOOLEAN_def TOKEN_VALUE_NULL_def TOKEN_VALUE_STRING_def TOKEN_VALUE_NUMBER_def
  TOKEN_PROPERTY_NAME_def TOKEN_COMMENT_BLOCK_def TOKEN_COMMENT_LINE_def

section \<open>The store: allocation and the array operations used\<close>

text \<open>\<open>new JSONState(state, scanError, lastWasColon, parents)\<close>: a fresh object.\<close>

definition new_JSONState ::
  "heap \<Rightarrow> IState \<Rightarrow> ScanError option \<Rightarrow> bool \<Rightarrow> addr \<Rightarrow> addr \<times> heap" where
  "new_JSONState h state scanErr lastColon prnts =
     (objects_next h,
      h\<lparr>objects := (objects h)(objects_next h :=
            \<lparr>priv_state = state, scanError = scanErr, lastWasColon = lastColon,
             parents = prnts\<rparr>),
        objects_next := Suc (objects_next h)\<rparr>)"

text \<open>An array literal or \<open>Array.from\<close>: a fresh array holding the given elements.\<close>

definition new_Array :: "heap \<Rightarrow> JSONParent list \<Rightarrow> addr \<times> heap" where
  "new_Array h elems =
     (arrays_next h,
      h\<lparr>arrays := (arrays h)(arrays_next h := elems), arrays_next := Suc (arrays_next h)\<rparr>)"

definition Array_from :: "heap \<Rightarrow> addr \<Rightarrow> addr \<times> heap" where
  "Array_from h a = new_Array h (arrays h a)"

text \<open>\<open>push\<close> appends in place; \<open>pop\<close> removes the last element in place and does
  nothing to an empty array.\<close>

definition Array_push :: "heap \<Rightarrow> addr \<Rightarrow> JSONParent \<Rightarrow> heap" where
  "Array_push h a x = h\<lparr>arrays := (arrays h)(a := arrays h a @ [x])\<rparr>"

definition Array_pop :: "heap \<Rightarrow> addr \<Rightarrow> heap" where
  "Array_pop h a = h\<lparr>arrays := (arrays h)(a := butlast (arrays h a))\<rparr>"

text \<open>\<open>String.prototype.substr(start, length)\<close>: \<open>NaN\<close> counts as 0, a negative start
  counts from the end, and both ends are clamped to the string.\<close>

definition substr :: "string \<Rightarrow> number \<Rightarrow> nat \<Rightarrow> string" where
  "substr s start len =
     (let size = int (length s);
          from = (case start of
                    NaN \<Rightarrow> 0
                  | PosInfinity \<Rightarrow> size
                  | NegInfinity \<Rightarrow> 0
                  | Finite i \<Rightarrow> if i < 0 then max (size + i) 0 else min i size)
      in take len (drop (nat from) s))"

section \<open>\<open>class JSONState\<close>\<close>

text \<open>The \<open>while (++index < first.length)\<close> loop of \<open>areArraysEqual\<close>; \<open>index\<close> is
  the value before the increment.\<close>

function areArraysEqual_loop :: "JSONParent list \<Rightarrow> JSONParent list \<Rightarrow> int \<Rightarrow> bool" where
  "areArraysEqual_loop first second index =
     (let index = index + 1 in
      if index < int (length first) then
        (if first ! nat index \<noteq> second ! nat index then False
         else areArraysEqual_loop first second index)
      else True)"
  by pat_completeness auto
termination
  by (relation "measure (\<lambda>(first, second, index). nat (int (length first) - index))") auto

declare areArraysEqual_loop.simps [simp del]

text \<open>\<open>areArraysEqual(first, second)\<close>; an argument is \<open>None\<close> for \<open>null\<close>.\<close>

definition areArraysEqual :: "heap \<Rightarrow> addr option \<Rightarrow> addr option \<Rightarrow> bool" where
  "areArraysEqual h first second =
     (if first = second then True
      else case (first, second) of
             (None, _) \<Rightarrow> False
           | (_, None) \<Rightarrow> False
           | (Some f, Some s) \<Rightarrow>
               if length (arrays h f) \<noteq> length (arrays h s) then False
               else areArraysEqual_loop (arrays h f) (arrays h s) (- 1))"

definition clone :: "heap \<Rightarrow> addr \<Rightarrow> addr \<times> heap" where
  "clone h this =
     new_JSONState h (priv_state (objects h this)) (scanError (objects h this))
       (lastWasColon (objects h this)) (parents (objects h this))"

definition equals :: "heap \<Rightarrow> addr \<Rightarrow> IState \<Rightarrow> bool" where
  "equals h this other =
     (if other = JSONStateRef this then True
      else case other of
             Null \<Rightarrow> False
           | Foreign _ \<Rightarrow> False
           | JSONStateRef that \<Rightarrow>
               scanError (objects h this) = scanError (objects h that) \<and>
               lastWasColon (objects h this) = lastWasColon (objects h that) \<and>
               areArraysEqual h (Some (parents (objects h this)))
                 (Some (parents (objects h that))))"

definition getStateData :: "heap \<Rightarrow> addr \<Rightarrow> IState" where
  "getStateData h this = priv_state (objects h this)"

definition setStateData :: "heap \<Rightarrow> addr \<Rightarrow> IState \<Rightarrow> heap" where
  "setStateData h this state =
     h\<lparr>objects := (objects h)(this := (objects h this)\<lparr>priv_state := state\<rparr>)\<rparr>"

section \<open>The scanner interface\<close>

text \<open>
  \<open>json.createScanner\<close> comes from the imported package \<open>jsonc-parser\<close>, so the
  tokenizer is modelled over any scanner: a type \<open>'s\<close> of scanner states with the four
  operations the tokenizer calls. \<open>scan\<close> returns the token kind and the scanner after
  the call; \<open>getPosition\<close> and \<open>getTokenError\<close> read a scanner.
\<close>

record 's JSONScanner =
  createScanner :: "string \<Rightarrow> 's"
  scan :: "'s \<Rightarrow> SyntaxKind \<times> 's"
  getPosition :: "'s \<Rightarrow> number"
  getTokenError :: "'s \<Rightarrow> ScanError"

section \<open>\<open>tokenize\<close>\<close>

text \<open>The variables of \<open>tokenize\<close> that change in its loop, and the store.\<close>

record 's loop_vars =
  w_scanner :: 's
  w_adjustOffset :: bool
  w_lastWasColon :: bool
  w_parents :: addr
  w_ret :: ILineTokens
  w_heap :: heap

datatype 'a iteration = Break | Throw error | Continue 'a

text \<open>
  One pass through the body of \<open>while (true)\<close>. \<open>line\<close> is the line after the
  prefixing switch, \<open>n\<close> is \<open>numberOfInsertedCharacters\<close>.
\<close>

definition loop_body ::
  "'s JSONScanner \<Rightarrow> bool \<Rightarrow> string \<Rightarrow> addr \<Rightarrow> number \<Rightarrow> int \<Rightarrow> 's loop_vars
     \<Rightarrow> 's loop_vars iteration" where
  "loop_body sc comments line state offsetDelta n v =
     (let offset = num_add offsetDelta (getPosition sc (w_scanner v));
          type' = '''';
          (kind, scanner') = scan sc (w_scanner v)
      in
      if kind = EOF then Break
      else if strict_equals offset (num_add offsetDelta (getPosition sc scanner')) then
        Throw (Error (''Scanner did not advance, next 3 characters are: ''
                        @ substr line (getPosition sc scanner') 3))
      else
        let offset = (if w_adjustOffset v then num_sub offset (Finite n) else offset);
            adjustOffset = (n > 0);
            h = w_heap v;
            p = w_parents v;
            (type', lastColon, h) =
              (case kind of
                 OpenBraceToken \<Rightarrow> (TOKEN_DELIM_OBJECT, False, Array_push h p Object)
               | CloseBraceToken \<Rightarrow> (TOKEN_DELIM_OBJECT, False, Array_pop h p)
               | OpenBracketToken \<Rightarrow> (TOKEN_DELIM_ARRAY, False, Array_push h p Array)
               | CloseBracketToken \<Rightarrow> (TOKEN_DELIM_ARRAY, False, Array_pop h p)
               | ColonToken \<Rightarrow> (TOKEN_DELIM_COLON, True, h)
               | CommaToken \<Rightarrow> (TOKEN_DELIM_COMMA, False, h)
               | TrueKeyword \<Rightarrow> (TOKEN_VALUE_BOOLEAN, False, h)
               | FalseKeyword \<Rightarrow> (TOKEN_VALUE_BOOLEAN, False, h)
               | NullKeyword \<Rightarrow> (TOKEN_VALUE_NULL, False, h)
               | StringLiteral \<Rightarrow>
                   (let currentParent =
                          (if length (arrays h p) \<noteq> 0
                           then arrays h p ! (length (arrays h p) - 1)
                           else Object);
                        inArray = (currentParent = Array)
                    in (if w_lastWasColon v \<or> inArray
                        then TOKEN_VALUE_STRING else TOKEN_PROPERTY_NAME,
                        False, h))
               | NumericLiteral \<Rightarrow> (TOKEN_VALUE_NUMBER, False, h)
               | _ \<Rightarrow> (type', w_lastWasColon v, h));
            type' =
              (if comments then
                 (case kind of
                    LineCommentTrivia \<Rightarrow> TOKEN_COMMENT_LINE
                  | BlockCommentTrivia \<Rightarrow> TOKEN_COMMENT_BLOCK
                  | _ \<Rightarrow> type')
               else type');
            (es, h) = new_JSONState h (getStateData h state)
                        (Some (getTokenError sc scanner')) lastColon p
        in Continue
             \<lparr>w_scanner = scanner', w_adjustOffset = adjustOffset,
              w_lastWasColon = lastColon, w_parents = p,
              w_ret = \<lparr>tokens = tokens (w_ret v) @ [\<lparr>startIndex = offset, scopes = type'\<rparr>],
                       endState = es\<rparr>,
              w_heap = h\<rparr>)"

text \<open>
  The loop itself. It has no bound of its own: it ends when the scanner reports
  \<open>EOF\<close> or the advance check throws, and the value \<open>None\<close> stands for a loop that
  never ends. A thrown error comes with the store at that moment.
\<close>

partial_function (option) tokenize_loop ::
  "'s JSONScanner \<Rightarrow> bool \<Rightarrow> string \<Rightarrow> addr \<Rightarrow> number \<Rightarrow> int \<Rightarrow> 's loop_vars
     \<Rightarrow> (error \<times> heap + ILineTokens \<times> heap) option" where
  "tokenize_loop sc comments line state offsetDelta n v =
     (case loop_body sc comments line state offsetDelta n v of
        Break \<Rightarrow> Some (Inr (w_ret v, w_heap v))
      | Throw e \<Rightarrow> Some (Inl (e, w_heap v))
      | Continue v' \<Rightarrow> tokenize_loop sc comments line state offsetDelta n v')"

declare tokenize_loop.simps [code]

text \<open>The switch on \<open>state.scanError\<close>: the line to scan and the number of inserted
  characters.\<close>

definition prefixed :: "ScanError option \<Rightarrow> string \<Rightarrow> string \<times> int" where
  "prefixed err line =
     (case err of
        Some UnexpectedEndOfString \<Rightarrow> ([CHR 0x22] @ line, 1)
      | Some UnexpectedEndOfComment \<Rightarrow> (''/*'' @ line, 2)
      | _ \<Rightarrow> (line, 0))"

text \<open>The variables as they are when the loop is entered.\<close>

definition loop_entry :: "'s JSONScanner \<Rightarrow> string \<Rightarrow> addr \<Rightarrow> heap \<Rightarrow> 's loop_vars" where
  "loop_entry sc line state h =
     (let scanner = createScanner sc line;
          lastColon = lastWasColon (objects h state);
          (prnts, h) = Array_from h (parents (objects h state));
          (cl, h) = clone h state
      in \<lparr>w_scanner = scanner, w_adjustOffset = False, w_lastWasColon = lastColon,
          w_parents = prnts, w_ret = \<lparr>tokens = [], endState = cl\<rparr>, w_heap = h\<rparr>)"

text \<open>\<open>tokenize(comments, line, state, offsetDelta = 0, stopAtOffset?)\<close>; an omitted
  optional argument is \<open>None\<close>.\<close>

definition tokenize ::
  "'s JSONScanner \<Rightarrow> bool \<Rightarrow> string \<Rightarrow> addr \<Rightarrow> number option \<Rightarrow> number option \<Rightarrow> heap
     \<Rightarrow> (error \<times> heap + ILineTokens \<times> heap) option" where
  "tokenize sc comments line state offsetDelta stopAtOffset h =
     (let offsetDelta = (case offsetDelta of None \<Rightarrow> Finite 0 | Some d \<Rightarrow> d);
          (line, n) = prefixed (scanError (objects h state)) line
      in tokenize_loop sc comments line state offsetDelta n (loop_entry sc line state h))"

text \<open>\<open>createTokenizationSupport(supportComments)\<close>: \<open>getInitialState\<close> builds
  \<open>new JSONState(null, null, false, [])\<close>, and \<open>tokenize\<close> passes the flag on.\<close>

definition getInitialState :: "heap \<Rightarrow> addr \<times> heap" where
  "getInitialState h =
     (let (a, h) = new_Array h [] in new_JSONState h Null None False a)"

definition provider_tokenize ::
  "'s JSONScanner \<Rightarrow> bool \<Rightarrow> string \<Rightarrow> addr \<Rightarrow> number option \<Rightarrow> number option \<Rightarrow> heap
     \<Rightarrow> (error \<times> heap + ILineTokens \<times> heap) option" where
  "provider_tokenize sc supportComments line state offsetDelta stopAtOffset h =
     tokenize sc supportComments line state offsetDelta stopAtOffset h"

text \<open>The store before anything is allocated; concrete runs start from it.\<close>

definition heap0 :: heap where
  "heap0 =
     \<lparr>objects = (\<lambda>_. \<lparr>priv_state = Null, scanError = None, lastWasColon = False,
                        parents = 0\<rparr>),
      objects_next = 0, arrays = (\<lambda>_. []), arrays_next = 0\<rparr>"

section \<open>Views of the loop used in the proofs\<close>

text \<open>
  The three effects of the switch on the token kind, taken apart: the bracket stack, the
  colon flag and the category. \<open>loop_next\<close> puts them together into the variables after
  a pass that neither breaks nor throws; lemma \<open>loop_body_eq\<close> proves that this is what
  \<open>loop_body\<close> computes.
\<close>

fun stack_after :: "SyntaxKind \<Rightarrow> JSONParent list \<Rightarrow> JSONParent list" where
  "stack_after OpenBraceToken xs = xs @ [Object]"
| "stack_after CloseBraceToken xs = butlast xs"
| "stack_after OpenBracketToken xs = xs @ [Array]"
| "stack_after CloseBracketToken xs = butlast xs"
| "stack_after _ xs = xs"

fun colon_after :: "SyntaxKind \<Rightarrow> bool \<Rightarrow> bool" where
  "colon_after ColonToken b = True"
| "colon_after LineCommentTrivia b = b"
| "colon_after BlockCommentTrivia b = b"
| "colon_after LineBreakTrivia b = b"
| "colon_after Trivia b = b"
| "colon_after Unknown b = b"
| "colon_after EOF b = b"
| "colon_after _ b = False"

fun scopes_for :: "bool \<Rightarrow> SyntaxKind \<Rightarrow> bool \<Rightarrow> JSONParent list \<Rightarrow> string" where
  "scopes_for c OpenBraceToken b xs = TOKEN_DELIM_OBJECT"
| "scopes_for c CloseBraceToken b xs = TOKEN_DELIM_OBJECT"
| "scopes_for c OpenBracketToken b xs = TOKEN_DELIM_ARRAY"
| "scopes_for c CloseBracketToken b xs = TOKEN_DELIM_ARRAY"
| "scopes_for c ColonToken b xs = TOKEN_DELIM_COLON"
| "scopes_for c CommaToken b xs = TOKEN_DELIM_COMMA"
| "scopes_for c TrueKeyword b xs = TOKEN_VALUE_BOOLEAN"
| "scopes_for c FalseKeyword b xs = TOKEN_VALUE_BOOLEAN"
| "scopes_for c NullKeyword b xs = TOKEN_VALUE_NULL"
| "scopes_for c StringLiteral b xs =
     (if b \<or> (xs \<noteq> [] \<and> last xs = Array) then TOKEN_VALUE_STRING else TOKEN_PROPERTY_NAME)"
| "scopes_for c NumericLiteral b xs = TOKEN_VALUE_NUMBER"
| "scopes_for c LineCommentTrivia b xs = (if c then TOKEN_COMMENT_LINE else [])"
| "scopes_for c BlockCommentTrivia b xs = (if c then TOKEN_COMMENT_BLOCK else [])"
| "scopes_for c _ b xs = []"

text \<open>The offset pushed for a token scanned from position \<open>pos\<close>: \<open>offsetDelta + pos\<close>,
  less \<open>n\<close> when \<open>adjustOffset\<close> is set.\<close>

definition reported_offset :: "number \<Rightarrow> int \<Rightarrow> bool \<Rightarrow> number \<Rightarrow> number" where
  "reported_offset offsetDelta n adjust pos =
     (if adjust then num_sub (num_add offsetDelta pos) (Finite n)
      else num_add offsetDelta pos)"

definition loop_next ::
  "'s JSONScanner \<Rightarrow> bool \<Rightarrow> addr \<Rightarrow> number \<Rightarrow> int \<Rightarrow> 's loop_vars \<Rightarrow> 's loop_vars" where
  "loop_next sc comments state offsetDelta n v =
     (let kind = fst (scan sc (w_scanner v)); s' = snd (scan sc (w_scanner v));
          h = w_heap v; p = w_parents v
      in \<lparr>w_scanner = s', w_adjustOffset = (0 < n),
          w_lastWasColon = colon_after kind (w_lastWasColon v), w_parents = p,
          w_ret = \<lparr>tokens = tokens (w_ret v) @
                     [\<lparr>startIndex = reported_offset offsetDelta n (w_adjustOffset v)
                                     (getPosition sc (w_scanner v)),
                       scopes = scopes_for comments kind (w_lastWasColon v) (arrays h p)\<rparr>],
                   endState = objects_next h\<rparr>,
          w_heap = h\<lparr>objects := (objects h)(objects_next h :=
                        \<lparr>priv_state = priv_state (objects h state),
                         scanError = Some (getTokenError sc s'),
                         lastWasColon = colon_after kind (w_lastWasColon v), parents = p\<rparr>),
                     objects_next := Suc (objects_next h),
                     arrays := (arrays h)(p := stack_after kind (arrays h p))\<rparr>\<rparr>)"

text \<open>The scanner after \<open>k\<close> calls of \<open>scan\<close>; a scan after which the loop goes on
  (no \<open>EOF\<close>, and the advance check of line 157 does not fire); a scan at which the
  advance check fires; \<open>k\<close> scans in a row after which the loop goes on; the variables
  after \<open>k\<close> passes.\<close>

fun scans :: "'s JSONScanner \<Rightarrow> nat \<Rightarrow> 's \<Rightarrow> 's" where
  "scans sc 0 s = s"
| "scans sc (Suc k) s = scans sc k (snd (scan sc s))"

definition check_fires :: "'s JSONScanner \<Rightarrow> number \<Rightarrow> 's \<Rightarrow> bool" where
  "check_fires sc offsetDelta s \<longleftrightarrow>
     strict_equals (num_add offsetDelta (getPosition sc s))
       (num_add offsetDelta (getPosition sc (snd (scan sc s))))"

definition continues :: "'s JSONScanner \<Rightarrow> number \<Rightarrow> 's \<Rightarrow> bool" where
  "continues sc offsetDelta s \<longleftrightarrow>
     fst (scan sc s) \<noteq> EOF \<and> \<not> check_fires sc offsetDelta s"

definition stalls :: "'s JSONScanner \<Rightarrow> number \<Rightarrow> 's \<Rightarrow> bool" where
  "stalls sc offsetDelta s \<longleftrightarrow>
     fst (scan sc s) \<noteq> EOF \<and> check_fires sc offsetDelta s"

fun runs :: "'s JSONScanner \<Rightarrow> number \<Rightarrow> nat \<Rightarrow> 's \<Rightarrow> bool" where
  "runs sc offsetDelta 0 s = True"
| "runs sc offsetDelta (Suc k) s =
     (continues sc offsetDelta s \<and> runs sc offsetDelta k (snd (scan sc s)))"

fun loop_after ::
  "'s JSONScanner \<Rightarrow> bool \<Rightarrow> addr \<Rightarrow> number \<Rightarrow> int \<Rightarrow> nat \<Rightarrow> 's loop_vars
     \<Rightarrow> 's loop_vars" where
  "loop_after sc comments state offsetDelta n 0 v = v"
| "loop_after sc comments state offsetDelta n (Suc k) v =
     loop_after sc comments state offsetDelta n k (loop_next sc comments state offsetDelta n v)"

text \<open>A loop that ends has made some number of full passes and then met \<open>EOF\<close> or a
  scan at which the advance check fired.\<close>

definition ended_after ::
  "'s JSONScanner \<Rightarrow> bool \<Rightarrow> string \<Rightarrow> addr \<Rightarrow> number \<Rightarrow> int \<Rightarrow> 's loop_vars
     \<Rightarrow> (error \<times> heap + ILineTokens \<times> heap) \<Rightarrow> nat \<Rightarrow> bool" where
  "ended_after sc comments line state offsetDelta n v r k \<longleftrightarrow>
     runs sc offsetDelta k (w_scanner v) \<and>
     (let v' = loop_after sc comments state offsetDelta n k v in
        (fst (scan sc (w_scanner v')) = EOF \<and> r = Inr (w_ret v', w_heap v')) \<or>
        (stalls sc offsetDelta (w_scanner v') \<and>
         r = Inl (Error (''Scanner did not advance, next 3 characters are: ''
                    @ substr line (getPosition sc (snd (scan sc (w_scanner v')))) 3),
                  w_heap v')))"

text \<open>
  What is asked of a scanner, started in \<open>s\<close>. \<open>strictly_advancing\<close>: every scan that does
  not report \<open>EOF\<close> moves the position strictly forward, by \<open><\<close> on numbers.
  \<open>positions_are_numbers\<close>: the positions it reports are values a JavaScript number can
  hold, that is, the finite ones are below \<open>2 ^ 1024\<close> in magnitude.
  \<open>offsets_exact\<close>: the positions are finite and every sum of the finite \<open>offsetDelta\<close> \<open>d\<close>
  and a position is below \<open>2 ^ 53\<close> in magnitude, where sums are exact.
\<close>

definition strictly_advancing :: "'s JSONScanner \<Rightarrow> 's \<Rightarrow> bool" where
  "strictly_advancing sc s \<longleftrightarrow>
     (\<forall>k. fst (scan sc (scans sc k s)) = EOF \<or>
          num_less (getPosition sc (scans sc k s))
            (getPosition sc (snd (scan sc (scans sc k s)))))"




definition offsets_exact :: "'s JSONScanner \<Rightarrow> int \<Rightarrow> 's \<Rightarrow> bool" where
  "offsets_exact sc d s \<longleftrightarrow>
     (\<forall>k. case getPosition sc (scans sc k s) of
            Finite p \<Rightarrow> \<bar>d + p\<bar> < 2 ^ 53
          | _ \<Rightarrow> False)"


text \<open>The store that a finished call leaves, whether it returned or threw.\<close>

definition final_heap :: "(error \<times> heap + ILineTokens \<times> heap) \<Rightarrow> heap" where
  "final_heap r = (case r of Inl (e, h) \<Rightarrow> h | Inr (ret, h) \<Rightarrow> h)"

section \<open>Stub scanners for concrete runs\<close>

text \<open>
  A stub scanner replays a script: for the text it is created on, the list of tokens as
  (kind, position after the token, scan error), then \<open>EOF\<close> for ever. \<open>start\<close> is the
  position it reports before its first scan.
\<close>

type_synonym script = "(SyntaxKind \<times> int \<times> ScanError) list"

definition scripted :: "int \<Rightarrow> (string \<Rightarrow> script) \<Rightarrow> (int \<times> ScanError \<times> script) JSONScanner" where
  "scripted start table =
     \<lparr>createScanner = (\<lambda>text. (start, ScanError_None, table text)),
      scan = (\<lambda>(pos, err, rest).
                case rest of
                  [] \<Rightarrow> (EOF, (pos, ScanError_None, []))
                | (kind, pos', err') # rest' \<Rightarrow> (kind, (pos', err', rest'))),
      getPosition = (\<lambda>(pos, err, rest). Finite pos),
      getTokenError = (\<lambda>(pos, err, rest). err)\<rparr>"

text \<open>
  The scripts of the sample lines: the tokens of \<open>{"a":1}\<close>, of \<open>{"a":"line1\<close> (the last
  string is not closed), of \<open>"line2"}\<close> (the second line \<open>line2"}\<close> behind its inserted
  quote), of \<open>["x"]\<close>, \<open>// hi\<close> and \<open>}\<close>. On \<open>?\<close> the stub returns a token without
  moving. Any other text, the empty one too, has no token.
\<close>

definition sample_lines :: "string \<Rightarrow> script" where
  \<open>sample_lines text =
     (if text = ''{"a":1}'' then
        [(OpenBraceToken, 1, ScanError_None), (StringLiteral, 4, ScanError_None),
         (ColonToken, 5, ScanError_None), (NumericLiteral, 6, ScanError_None),
         (CloseBraceToken, 7, ScanError_None)]
      else if text = ''{"a":"line1'' then
        [(OpenBraceToken, 1, ScanError_None), (StringLiteral, 4, ScanError_None),
         (ColonToken, 5, ScanError_None), (StringLiteral, 11, UnexpectedEndOfString)]
      else if text = ''"line2"}'' then
        [(StringLiteral, 7, ScanError_None), (CloseBraceToken, 8, ScanError_None)]
      else if text = ''["x"]'' then
        [(OpenBracketToken, 1, ScanError_None), (StringLiteral, 4, ScanError_None),
         (CloseBracketToken, 5, ScanError_None)]
      else if text = ''// hi'' then [(LineCommentTrivia, 5, ScanError_None)]
      else if text = ''}'' then [(CloseBraceToken, 1, ScanError_None)]
      else if text = ''?'' then [(Unknown, 0, InvalidCharacter)]
      else [])\<close>

text \<open>The tokens of a call that returned, as (offset, category) pairs.\<close>

definition returned_tokens ::
  "(error \<times> heap + ILineTokens \<times> heap) option \<Rightarrow> (number \<times> string) list option" where
  "returned_tokens r =
     (case r of
        Some (Inr (ret, h)) \<Rightarrow> Some (map (\<lambda>t. (startIndex t, scopes t)) (tokens ret))
      | _ \<Rightarrow> None)"

section \<open>Arithmetic on numbers\<close>

lemma bit_length_le: "n < 2 ^ k \<Longrightarrow> bit_length n \<le> k"
proof (induction k arbitrary: n)
  case 0
  then show ?case by (simp add: bit_length.simps)
next
  case (Suc k)
  show ?case
  proof (cases "n = 0")
    case True
    then show ?thesis by (simp add: bit_length.simps)
  next
    case False
    from Suc.prems have "n div 2 < 2 ^ k" by simp
    from Suc.IH[OF this] False show ?thesis
      by (subst bit_length.simps) simp
  qed
qed

text \<open>Below \<open>2 ^ 53\<close> in magnitude nothing is rounded.\<close>

lemma round_to_double_exact:
  assumes "\<bar>x\<bar> < 2 ^ 53"
  shows "round_to_double x = Finite x"
proof -
  have "nat \<bar>x\<bar> < 2 ^ 53" using assms by (simp add: nat_less_iff)
  from bit_length_le[OF this] have e: "bit_length (nat \<bar>x\<bar>) - 53 = 0" by simp
  have "(2::int) ^ 53 \<le> 2 ^ 1024" by (rule power_increasing) simp_all
  with assms have "\<not> (2::int) ^ 1024 \<le> \<bar>x\<bar>" by linarith
  then show ?thesis
    unfolding round_to_double_def Let_def e by (auto simp add: abs_if)
qed

lemma num_add_exact:
  "\<bar>a + b\<bar> < 2 ^ 53 \<Longrightarrow> num_add (Finite a) (Finite b) = Finite (a + b)"
  by (simp add: round_to_double_exact)

lemma num_sub_exact:
  "\<bar>a - b\<bar> < 2 ^ 53 \<Longrightarrow> num_sub (Finite a) (Finite b) = Finite (a - b)"
  by (simp add: num_sub_def round_to_double_exact)





lemma strict_equals_refl: "x \<noteq> NaN \<Longrightarrow> strict_equals x x"
  by (simp add: strict_equals_def)

lemma num_add_Finite_not_NaN: "num_add (Finite a) (Finite b) \<noteq> NaN"
  by (simp add: round_to_double_def Let_def)

section \<open>State equality\<close>

text \<open>From position \<open>index + 1\<close> on, the comparison loop of \<open>areArraysEqual\<close> decides
  whether the remaining elements agree.\<close>

lemma areArraysEqual_loop_suffix:
  "length first = length second \<Longrightarrow> - 1 \<le> index \<Longrightarrow>
   areArraysEqual_loop first second index
     = (drop (nat (index + 1)) first = drop (nat (index + 1)) second)"
proof (induction first second index rule: areArraysEqual_loop.induct)
  case (1 first second index)
  define i where "i = nat (index + 1)"
  have nx: "nat (index + 1 + 1) = Suc i" "nat (2 + index) = Suc i"
    using "1.prems" by (auto simp: i_def)
  show ?case
  proof (cases "index + 1 < int (length first)")
    case inside: True
    then have lt: "i < length first" "i < length second"
      using "1.prems" by (auto simp: i_def)
    have split: "drop i first = first ! i # drop (Suc i) first"
      "drop i second = second ! i # drop (Suc i) second"
      using lt by (simp_all add: Cons_nth_drop_Suc)
    show ?thesis
    proof (cases "first ! i = second ! i")
      case same: True
      have "areArraysEqual_loop first second index = areArraysEqual_loop first second (index + 1)"
        using inside same
        by (subst areArraysEqual_loop.simps) (simp add: Let_def i_def)
      also have "\<dots> = (drop (Suc i) first = drop (Suc i) second)"
      proof -
        have "- 1 \<le> index + 1" using "1.prems" by simp
        from "1.IH"[OF refl inside _ "1.prems"(1) this] same show ?thesis
          by (simp add: i_def[symmetric] nx)
      qed
      finally show ?thesis
        unfolding i_def[symmetric] using same split by simp
    next
      case differ: False
      have "areArraysEqual_loop first second index = False"
        using inside differ
        by (subst areArraysEqual_loop.simps) (simp add: Let_def i_def)
      then show ?thesis
        unfolding i_def[symmetric] using differ split by simp
    qed
  next
    case False
    then have "areArraysEqual_loop first second index = True"
      by (subst areArraysEqual_loop.simps) (simp add: Let_def)
    then show ?thesis using False "1.prems" by simp
  qed
qed

lemma areArraysEqual_iff:
  "areArraysEqual h (Some f) (Some s) = (arrays h f = arrays h s)"
  by (auto simp: areArraysEqual_def areArraysEqual_loop_suffix)

section \<open>The loop, pass by pass\<close>

lemma last_conv: "xs \<noteq> [] \<Longrightarrow> xs ! (length xs - Suc 0) = last xs"
  by (simp add: last_conv_nth)

lemma loop_body_eq:
  "loop_body sc comments line state offsetDelta n v =
     (if fst (scan sc (w_scanner v)) = EOF then Break
      else if check_fires sc offsetDelta (w_scanner v) then
        Throw (Error (''Scanner did not advance, next 3 characters are: ''
                 @ substr line (getPosition sc (snd (scan sc (w_scanner v)))) 3))
      else Continue (loop_next sc comments state offsetDelta n v))"
proof -
  obtain kind s' where sc: "scan sc (w_scanner v) = (kind, s')"
    by (cases "scan sc (w_scanner v)")
  show ?thesis
    by (cases kind)
      (simp_all add: sc loop_body_def loop_next_def check_fires_def reported_offset_def Let_def
        new_JSONState_def getStateData_def Array_push_def Array_pop_def last_conv)
qed

lemma scans_Suc_right: "scans sc (Suc k) s = snd (scan sc (scans sc k s))"
  by (induction k arbitrary: s) simp_all

lemma scans_add: "scans sc (j + k) s = scans sc k (scans sc j s)"
  by (induction j arbitrary: s) simp_all

lemma runs_Suc_right: "runs sc offsetDelta (Suc k) s = (runs sc offsetDelta k s \<and> continues sc offsetDelta (scans sc k s))"
  by (induction k arbitrary: s) auto

lemma loop_next_scanner [simp]:
  "w_scanner (loop_next sc comments state offsetDelta n v) = snd (scan sc (w_scanner v))"
  by (simp add: loop_next_def Let_def)

lemma loop_after_scanner:
  "w_scanner (loop_after sc comments state offsetDelta n k v) = scans sc k (w_scanner v)"
  by (induction k arbitrary: v) simp_all

lemma loop_after_Suc_right:
  "loop_after sc comments state offsetDelta n (Suc k) v =
     loop_next sc comments state offsetDelta n (loop_after sc comments state offsetDelta n k v)"
  by (induction k arbitrary: v) simp_all

lemma tokenize_loop_continues:
  "continues sc offsetDelta (w_scanner v) \<Longrightarrow>
   tokenize_loop sc comments line state offsetDelta n v =
     tokenize_loop sc comments line state offsetDelta n
       (loop_next sc comments state offsetDelta n v)"
  by (subst tokenize_loop.simps) (simp add: loop_body_eq continues_def)

lemma tokenize_loop_EOF:
  "fst (scan sc (w_scanner v)) = EOF \<Longrightarrow>
   tokenize_loop sc comments line state offsetDelta n v = Some (Inr (w_ret v, w_heap v))"
  by (subst tokenize_loop.simps) (simp add: loop_body_eq)


lemma tokenize_loop_runs:
  "runs sc offsetDelta k (w_scanner v) \<Longrightarrow>
   tokenize_loop sc comments line state offsetDelta n v =
     tokenize_loop sc comments line state offsetDelta n
       (loop_after sc comments state offsetDelta n k v)"
proof (induction k arbitrary: v)
  case 0
  show ?case by simp
next
  case (Suc k)
  then show ?case by (simp add: tokenize_loop_continues)
qed

lemma ended_after_step:
  "continues sc offsetDelta (w_scanner v) \<Longrightarrow>
   ended_after sc comments line state offsetDelta n
     (loop_next sc comments state offsetDelta n v) r k \<Longrightarrow>
   ended_after sc comments line state offsetDelta n v r (Suc k)"
  by (simp add: ended_after_def)

lemma tokenize_loop_SomeD:
  assumes "tokenize_loop sc comments line state offsetDelta n v = Some r"
  shows "\<exists>k. ended_after sc comments line state offsetDelta n v r k"
  using assms
proof (induction rule: tokenize_loop.raw_induct[rotated 1, consumes 1, case_names step])
  case (step loop sc comments line state offsetDelta n v r)
  show ?case
  proof (cases "fst (scan sc (w_scanner v)) = EOF")
    case True
    with step.hyps have "r = Inr (w_ret v, w_heap v)"
      by (simp add: loop_body_eq)
    with True have "ended_after sc comments line state offsetDelta n v r 0"
      by (simp add: ended_after_def)
    then show ?thesis ..
  next
    case notEOF: False
    show ?thesis
    proof (cases "check_fires sc offsetDelta (w_scanner v)")
      case True
      with notEOF step.hyps have "ended_after sc comments line state offsetDelta n v r 0"
        by (auto simp add: loop_body_eq ended_after_def stalls_def)
      then show ?thesis ..
    next
      case False
      with notEOF have c: "continues sc offsetDelta (w_scanner v)"
        by (simp add: continues_def)
      from notEOF False step.hyps
      have "loop sc comments line state offsetDelta n
              (loop_next sc comments state offsetDelta n v) = Some r"
        by (simp add: loop_body_eq)
      from step.IH[OF this] obtain k where
        "ended_after sc comments line state offsetDelta n
           (loop_next sc comments state offsetDelta n v) r k" ..
      from ended_after_step[OF c this] show ?thesis ..
    qed
  qed
qed

subsection \<open>What one pass and a run of passes leave in the variables\<close>

lemma loop_next_simps [simp]:
  "w_parents (loop_next sc comments state offsetDelta n v) = w_parents v"
  "w_adjustOffset (loop_next sc comments state offsetDelta n v) = (0 < n)"
  "w_lastWasColon (loop_next sc comments state offsetDelta n v) =
     colon_after (fst (scan sc (w_scanner v))) (w_lastWasColon v)"
  "objects_next (w_heap (loop_next sc comments state offsetDelta n v)) =
     Suc (objects_next (w_heap v))"
  "arrays_next (w_heap (loop_next sc comments state offsetDelta n v)) = arrays_next (w_heap v)"
  "endState (w_ret (loop_next sc comments state offsetDelta n v)) = objects_next (w_heap v)"
  by (simp_all add: loop_next_def Let_def)

lemma loop_next_tokens:
  "tokens (w_ret (loop_next sc comments state offsetDelta n v)) =
     tokens (w_ret v) @
       [\<lparr>startIndex = reported_offset offsetDelta n (w_adjustOffset v)
                       (getPosition sc (w_scanner v)),
         scopes = scopes_for comments (fst (scan sc (w_scanner v))) (w_lastWasColon v)
                    (arrays (w_heap v) (w_parents v))\<rparr>]"
  by (simp add: loop_next_def Let_def)

lemma loop_next_objects:
  "objects (w_heap (loop_next sc comments state offsetDelta n v)) a =
     (if a = objects_next (w_heap v) then
        \<lparr>priv_state = priv_state (objects (w_heap v) state),
         scanError = Some (getTokenError sc (snd (scan sc (w_scanner v)))),
         lastWasColon = colon_after (fst (scan sc (w_scanner v))) (w_lastWasColon v),
         parents = w_parents v\<rparr>
      else objects (w_heap v) a)"
  by (simp add: loop_next_def Let_def)

lemma loop_next_arrays:
  "arrays (w_heap (loop_next sc comments state offsetDelta n v)) a =
     (if a = w_parents v
      then stack_after (fst (scan sc (w_scanner v))) (arrays (w_heap v) a)
      else arrays (w_heap v) a)"
  by (simp add: loop_next_def Let_def)

lemma loop_after_parents [simp]:
  "w_parents (loop_after sc comments state offsetDelta n k v) = w_parents v"
  by (induction k arbitrary: v) simp_all

lemma loop_after_objects_next [simp]:
  "objects_next (w_heap (loop_after sc comments state offsetDelta n k v)) =
     objects_next (w_heap v) + k"
  by (induction k arbitrary: v) simp_all

lemma loop_after_arrays_next [simp]:
  "arrays_next (w_heap (loop_after sc comments state offsetDelta n k v)) =
     arrays_next (w_heap v)"
  by (induction k arbitrary: v) simp_all

lemma loop_after_objects_old:
  "a < objects_next (w_heap v) \<Longrightarrow>
   objects (w_heap (loop_after sc comments state offsetDelta n k v)) a = objects (w_heap v) a"
  by (induction k arbitrary: v) (simp_all add: loop_next_objects)

lemma loop_after_arrays_other:
  "a \<noteq> w_parents v \<Longrightarrow>
   arrays (w_heap (loop_after sc comments state offsetDelta n k v)) a = arrays (w_heap v) a"
  by (induction k arbitrary: v) (simp_all add: loop_next_arrays)

lemma loop_after_length_tokens [simp]:
  "length (tokens (w_ret (loop_after sc comments state offsetDelta n k v))) =
     length (tokens (w_ret v)) + k"
  by (induction k arbitrary: v) (simp_all add: loop_next_tokens)

lemma loop_after_endState:
  "endState (w_ret (loop_after sc comments state offsetDelta n (Suc k) v)) =
     objects_next (w_heap v) + k"
  unfolding loop_after_Suc_right by simp

lemma loop_after_endState_scanError:
  "scanError (objects (w_heap (loop_after sc comments state offsetDelta n (Suc k) v))
       (endState (w_ret (loop_after sc comments state offsetDelta n (Suc k) v)))) =
     Some (getTokenError sc (scans sc (Suc k) (w_scanner v)))"
  unfolding loop_after_Suc_right
  by (simp add: loop_next_objects loop_after_scanner scans_Suc_right del: scans.simps)

lemma loop_after_adjustOffset:
  "w_adjustOffset (loop_after sc comments state offsetDelta n k v) =
     (if k = 0 then w_adjustOffset v else 0 < n)"
  by (cases k) (simp_all add: loop_after_Suc_right del: loop_after.simps(2))

text \<open>The offsets pushed by \<open>k\<close> passes: the scanner's position before each scan plus
  \<open>offsetDelta\<close>, less \<open>n\<close> where \<open>adjustOffset\<close> was set.\<close>

lemma loop_after_startIndex:
  "map startIndex (tokens (w_ret (loop_after sc comments state offsetDelta n k v))) =
     map startIndex (tokens (w_ret v)) @
     map (\<lambda>j. reported_offset offsetDelta n (if j = 0 then w_adjustOffset v else 0 < n)
               (getPosition sc (scans sc j (w_scanner v)))) [0..<k]"
proof (induction k)
  case 0
  show ?case by simp
next
  case (Suc k)
  show ?case
    unfolding loop_after_Suc_right
    by (simp add: loop_next_tokens Suc.IH loop_after_scanner loop_after_adjustOffset
        del: loop_after.simps)
qed

lemma loop_entry_simps [simp]:
  "w_scanner (loop_entry sc line state h) = createScanner sc line"
  "w_adjustOffset (loop_entry sc line state h) = False"
  "w_lastWasColon (loop_entry sc line state h) = lastWasColon (objects h state)"
  "w_parents (loop_entry sc line state h) = arrays_next h"
  "tokens (w_ret (loop_entry sc line state h)) = []"
  "endState (w_ret (loop_entry sc line state h)) = objects_next h"
  "objects_next (w_heap (loop_entry sc line state h)) = Suc (objects_next h)"
  "arrays_next (w_heap (loop_entry sc line state h)) = Suc (arrays_next h)"
  by (simp_all add: loop_entry_def Let_def Array_from_def new_Array_def clone_def
      new_JSONState_def)

lemma loop_entry_objects:
  "objects (w_heap (loop_entry sc line state h)) a =
     (if a = objects_next h then objects h state else objects h a)"
  by (simp add: loop_entry_def Let_def Array_from_def new_Array_def clone_def
      new_JSONState_def)

lemma loop_entry_arrays:
  "arrays (w_heap (loop_entry sc line state h)) a =
     (if a = arrays_next h then arrays h (parents (objects h state)) else arrays h a)"
  by (simp add: loop_entry_def Let_def Array_from_def new_Array_def clone_def
      new_JSONState_def)

subsection \<open>The whole call\<close>

lemma tokenize_eq:
  "tokenize sc comments line state offsetDelta stopAtOffset h =
     tokenize_loop sc comments (fst (prefixed (scanError (objects h state)) line)) state
       (case offsetDelta of None \<Rightarrow> Finite 0 | Some d \<Rightarrow> d)
       (snd (prefixed (scanError (objects h state)) line))
       (loop_entry sc (fst (prefixed (scanError (objects h state)) line)) state h)"
  by (simp add: tokenize_def Let_def split: prod.splits)

text \<open>A scanner that makes some measure go down at every scan that does not report
  \<open>EOF\<close> reports \<open>EOF\<close> after finitely many scans.\<close>

lemma reaches_EOF_measure:
  fixes f :: "'s \<Rightarrow> nat"
  assumes "\<And>k. fst (scan sc (scans sc k s)) = EOF
              \<or> f (snd (scan sc (scans sc k s))) < f (scans sc k s)"
  shows "\<exists>k. fst (scan sc (scans sc k s)) = EOF"
proof (rule ccontr)
  assume "\<not> (\<exists>k. fst (scan sc (scans sc k s)) = EOF)"
  with assms have down: "f (scans sc (Suc k) s) < f (scans sc k s)" for k
    by (simp add: scans_Suc_right del: scans.simps)
  have "f (scans sc k s) + k \<le> f s" for k
  proof (induction k)
    case 0
    show ?case by simp
  next
    case (Suc k)
    from down[of k] Suc show ?case by simp
  qed
  from this[of "Suc (f s)"] show False by simp
qed

lemma runs_iff:
  "runs sc offsetDelta k s \<longleftrightarrow> (\<forall>j<k. continues sc offsetDelta (scans sc j s))"
proof (induction k)
  case 0
  show ?case by simp
next
  case (Suc k)
  show ?case
    unfolding runs_Suc_right Suc.IH by (auto simp add: less_Suc_eq)
qed

lemma reaches_EOF_runs:
  assumes "\<And>k. fst (scan sc (scans sc k s)) = EOF \<or> continues sc offsetDelta (scans sc k s)"
    and "\<exists>k. fst (scan sc (scans sc k s)) = EOF"
  shows "\<exists>k. runs sc offsetDelta k s \<and> fst (scan sc (scans sc k s)) = EOF"
proof -
  define k where "k = (LEAST k. fst (scan sc (scans sc k s)) = EOF)"
  from assms(2) have e: "fst (scan sc (scans sc k s)) = EOF"
    unfolding k_def by (rule LeastI_ex)
  have "fst (scan sc (scans sc j s)) \<noteq> EOF" if "j < k" for j
    using that unfolding k_def by (rule not_less_Least)
  with assms(1) have "\<forall>j<k. continues sc offsetDelta (scans sc j s)" by blast
  with e show ?thesis unfolding runs_iff by blast
qed



lemma offsets_exactD:
  assumes "offsets_exact sc d s"
  shows "\<exists>p. getPosition sc (scans sc k s) = Finite p \<and> \<bar>d + p\<bar> < 2 ^ 53"
proof -
  from assms have "case getPosition sc (scans sc k s) of
      Finite p \<Rightarrow> \<bar>d + p\<bar> < 2 ^ 53 | _ \<Rightarrow> False"
    unfolding offsets_exact_def by blast
  then show ?thesis
    by (cases "getPosition sc (scans sc k s)") simp_all
qed

lemma exact_advance_continues:
  assumes "strictly_advancing sc s" and "offsets_exact sc d s"
  shows "fst (scan sc (scans sc k s)) = EOF \<or> continues sc (Finite d) (scans sc k s)"
proof (cases "fst (scan sc (scans sc k s)) = EOF")
  case True
  then show ?thesis ..
next
  case False
  with assms(1) have less: "num_less (getPosition sc (scans sc k s))
      (getPosition sc (snd (scan sc (scans sc k s))))"
    unfolding strictly_advancing_def by blast
  from offsets_exactD[OF assms(2), of k] obtain p where
    p: "getPosition sc (scans sc k s) = Finite p" "\<bar>d + p\<bar> < 2 ^ 53" by blast
  from offsets_exactD[OF assms(2), of "Suc k"] obtain q where
    q: "getPosition sc (snd (scan sc (scans sc k s))) = Finite q" "\<bar>d + q\<bar> < 2 ^ 53"
    unfolding scans_Suc_right by blast
  from less p q have "p < q" by simp
  moreover from p(2) have "round_to_double (d + p) = Finite (d + p)"
    by (rule round_to_double_exact)
  moreover from q(2) have "round_to_double (d + q) = Finite (d + q)"
    by (rule round_to_double_exact)
  ultimately show ?thesis
    using p(1) q(1) False by (simp add: continues_def check_fires_def strict_equals_def)
qed

lemma exact_advance_reaches_EOF:
  assumes "strictly_advancing sc s" and "offsets_exact sc d s"
  shows "\<exists>k. fst (scan sc (scans sc k s)) = EOF"
proof (rule reaches_EOF_measure[where
      f = "\<lambda>s. case getPosition sc s of Finite p \<Rightarrow> nat (2 ^ 53 - (d + p)) | _ \<Rightarrow> 0"])
  fix k
  show "fst (scan sc (scans sc k s)) = EOF \<or>
      (case getPosition sc (snd (scan sc (scans sc k s))) of
         Finite p \<Rightarrow> nat (2 ^ 53 - (d + p)) | _ \<Rightarrow> 0)
      < (case getPosition sc (scans sc k s) of
           Finite p \<Rightarrow> nat (2 ^ 53 - (d + p)) | _ \<Rightarrow> 0)"
  proof (cases "fst (scan sc (scans sc k s)) = EOF")
    case True
    then show ?thesis ..
  next
    case False
    with assms(1) have less: "num_less (getPosition sc (scans sc k s))
        (getPosition sc (snd (scan sc (scans sc k s))))"
      unfolding strictly_advancing_def by blast
    from offsets_exactD[OF assms(2), of k] obtain p where
      p: "getPosition sc (scans sc k s) = Finite p" "\<bar>d + p\<bar> < 2 ^ 53" by blast
    from offsets_exactD[OF assms(2), of "Suc k"] obtain q where
      q: "getPosition sc (snd (scan sc (scans sc k s))) = Finite q" "\<bar>d + q\<bar> < 2 ^ 53"
      unfolding scans_Suc_right by blast
    from less p q have "p < q" by simp
    moreover from p(2) have "d + p < 2 ^ 53" by linarith
    ultimately have "nat (2 ^ 53 - (d + q)) < nat (2 ^ 53 - (d + p))" by linarith
    with p(1) q(1) show ?thesis by simp
  qed
qed

text \<open>With exact offsets and a scanner that moves strictly forward, the loop returns.\<close>

lemma tokenize_loop_returns:
  assumes "strictly_advancing sc (w_scanner v)" and "offsets_exact sc d (w_scanner v)"
  shows "\<exists>k. runs sc (Finite d) k (w_scanner v) \<and>
           fst (scan sc (scans sc k (w_scanner v))) = EOF \<and>
           tokenize_loop sc comments line state (Finite d) n v =
             Some (Inr (w_ret (loop_after sc comments state (Finite d) n k v),
                        w_heap (loop_after sc comments state (Finite d) n k v)))"
proof -
  from reaches_EOF_runs[OF exact_advance_continues[OF assms] exact_advance_reaches_EOF[OF assms]]
  obtain k where
    k: "runs sc (Finite d) k (w_scanner v)" "fst (scan sc (scans sc k (w_scanner v))) = EOF"
    by blast
  from k(2)
  have "fst (scan sc (w_scanner (loop_after sc comments state (Finite d) n k v))) = EOF"
    by (simp add: loop_after_scanner)
  from tokenize_loop_EOF[OF this] tokenize_loop_runs[OF k(1)] k show ?thesis by metis
qed

subsection \<open>The stub scanners\<close>

lemma all_scans_unfold:
  "(\<forall>k. Q (scans sc k s)) \<longleftrightarrow> Q s \<and> (\<forall>k. Q (scans sc k (snd (scan sc s))))"
proof
  assume a: "\<forall>k. Q (scans sc k s)"
  from a[rule_format, of 0] have "Q s" by simp
  moreover have "Q (scans sc k (snd (scan sc s)))" for k
    using a[rule_format, of "Suc k"] by simp
  ultimately show "Q s \<and> (\<forall>k. Q (scans sc k (snd (scan sc s))))" by blast
next
  assume b: "Q s \<and> (\<forall>k. Q (scans sc k (snd (scan sc s))))"
  show "\<forall>k. Q (scans sc k s)"
  proof
    fix k
    show "Q (scans sc k s)" using b by (cases k) simp_all
  qed
qed

lemma scripted_simps [simp]:
  "createScanner (scripted start table) text = (start, ScanError_None, table text)"
  "scan (scripted start table) (pos, err, []) = (EOF, (pos, ScanError_None, []))"
  "scan (scripted start table) (pos, err, (kind, pos', err') # rest) = (kind, (pos', err', rest))"
  "getPosition (scripted start table) (pos, err, rest) = Finite pos"
  "getTokenError (scripted start table) (pos, err, rest) = err"
  by (simp_all add: scripted_def)

lemma scripted_exhausted:
  "fst (scan (scripted start table) (scans (scripted start table) k (pos, err, []))) = EOF"
  by (induction k arbitrary: err) simp_all

lemma scripted_scans_Nil:
  "scans (scripted start table) (Suc k) (pos, err, []) = (pos, ScanError_None, [])"
  by (induction k arbitrary: err) simp_all

lemma all_scans_scripted_Nil:
  "(\<forall>k. Q (scans (scripted start table) k (pos, err, [])))
     \<longleftrightarrow> Q (pos, err, []) \<and> Q (pos, ScanError_None, [])"
proof
  assume a: "\<forall>k. Q (scans (scripted start table) k (pos, err, []))"
  from a[rule_format, of 0] a[rule_format, of "Suc 0"]
  show "Q (pos, err, []) \<and> Q (pos, ScanError_None, [])" by simp
next
  assume b: "Q (pos, err, []) \<and> Q (pos, ScanError_None, [])"
  show "\<forall>k. Q (scans (scripted start table) k (pos, err, []))"
  proof
    fix k
    show "Q (scans (scripted start table) k (pos, err, []))"
      using b by (cases k) (simp_all add: scripted_scans_Nil del: scans.simps(2))
  qed
qed



lemma offsets_exact_scripted:
  "offsets_exact (scripted start table) d (pos, err, []) \<longleftrightarrow> \<bar>d + pos\<bar> < 2 ^ 53"
  "offsets_exact (scripted start table) d (pos, err, (kind, pos', err') # rest)
     \<longleftrightarrow> \<bar>d + pos\<bar> < 2 ^ 53 \<and> offsets_exact (scripted start table) d (pos', err', rest)"
proof -
  let ?Q = "\<lambda>s. case getPosition (scripted start table) s of
      Finite p \<Rightarrow> \<bar>d + p\<bar> < 2 ^ 53 | _ \<Rightarrow> False"
  have d: "offsets_exact (scripted start table) d s
      \<longleftrightarrow> (\<forall>k. ?Q (scans (scripted start table) k s))" for s
    by (simp add: offsets_exact_def)
  show "offsets_exact (scripted start table) d (pos, err, []) \<longleftrightarrow> \<bar>d + pos\<bar> < 2 ^ 53"
    unfolding d all_scans_scripted_Nil[of ?Q] by simp
  show "offsets_exact (scripted start table) d (pos, err, (kind, pos', err') # rest)
     \<longleftrightarrow> \<bar>d + pos\<bar> < 2 ^ 53 \<and> offsets_exact (scripted start table) d (pos', err', rest)"
    unfolding d by (subst all_scans_unfold[of ?Q]) simp
qed


text \<open>The equations that evaluate a concrete run.\<close>

lemmas run_defs =
  tokenize_eq prefixed_def loop_body_eq loop_next_def loop_entry_def scripted_def
  sample_lines_def getInitialState_def heap0_def new_JSONState_def new_Array_def Array_from_def
  clone_def returned_tokens_def Let_def check_fires_def strict_equals_def reported_offset_def
  num_sub_def round_to_double_exact

lemmas number_defs =
  check_fires_def strict_equals_def reported_offset_def num_sub_def round_to_double_exact

lemma tokenize_SomeD:
  assumes "tokenize sc comments line state offsetDelta stopAtOffset h = Some r"
  shows "\<exists>k. ended_after sc comments (fst (prefixed (scanError (objects h state)) line)) state
           (case offsetDelta of None \<Rightarrow> Finite 0 | Some d \<Rightarrow> d)
           (snd (prefixed (scanError (objects h state)) line))
           (loop_entry sc (fst (prefixed (scanError (objects h state)) line)) state h) r k"
  using assms unfolding tokenize_eq by (rule tokenize_loop_SomeD)


subsection \<open>What a call leaves in the store\<close>

lemma ended_after_final_heap:
  "ended_after sc comments line state offsetDelta n v r k \<Longrightarrow>
   final_heap r = w_heap (loop_after sc comments state offsetDelta n k v)"
  by (auto simp add: ended_after_def Let_def final_heap_def)

lemma tokenize_frame:
  assumes "tokenize sc comments line state offsetDelta stopAtOffset h = Some r"
  shows "a < objects_next h \<Longrightarrow> objects (final_heap r) a = objects h a"
    and "b < arrays_next h \<Longrightarrow> arrays (final_heap r) b = arrays h b"
proof -
  from tokenize_SomeD[OF assms] obtain k where
    "ended_after sc comments (fst (prefixed (scanError (objects h state)) line)) state
           (case offsetDelta of None \<Rightarrow> Finite 0 | Some d \<Rightarrow> d)
           (snd (prefixed (scanError (objects h state)) line))
           (loop_entry sc (fst (prefixed (scanError (objects h state)) line)) state h) r k" ..
  note fh = ended_after_final_heap[OF this]
  show "a < objects_next h \<Longrightarrow> objects (final_heap r) a = objects h a"
    unfolding fh by (simp add: loop_after_objects_old loop_entry_objects)
  show "b < arrays_next h \<Longrightarrow> arrays (final_heap r) b = arrays h b"
    unfolding fh by (simp add: loop_after_arrays_other loop_entry_arrays)
qed

lemma tokenize_returned:
  assumes "tokenize sc comments line state offsetDelta stopAtOffset h = Some (Inr (ret, h'))"
  shows "\<exists>k v. v = loop_after sc comments state
                 (case offsetDelta of None \<Rightarrow> Finite 0 | Some d \<Rightarrow> d)
                 (snd (prefixed (scanError (objects h state)) line)) k
                 (loop_entry sc (fst (prefixed (scanError (objects h state)) line)) state h)
             \<and> ret = w_ret v \<and> h' = w_heap v \<and> length (tokens ret) = k"
proof -
  from tokenize_SomeD[OF assms] obtain k where
    "ended_after sc comments (fst (prefixed (scanError (objects h state)) line)) state
           (case offsetDelta of None \<Rightarrow> Finite 0 | Some d \<Rightarrow> d)
           (snd (prefixed (scanError (objects h state)) line))
           (loop_entry sc (fst (prefixed (scanError (objects h state)) line)) state h)
           (Inr (ret, h')) k" ..
  then show ?thesis
    by (auto simp add: ended_after_def Let_def)
qed

lemma prefixed_count_nonneg: "0 \<le> snd (prefixed e line)"
  by (simp add: prefixed_def split: option.splits ScanError.splits)

subsection \<open>Every token returned was pushed by a pass of the loop\<close>

lemma runs_continues:
  "runs sc offsetDelta k s \<Longrightarrow> j < k \<Longrightarrow> continues sc offsetDelta (scans sc j s)"
proof (induction k arbitrary: s j)
  case 0
  then show ?case by simp
next
  case (Suc k)
  show ?case
  proof (cases j)
    case 0
    with Suc.prems show ?thesis by simp
  next
    case (Suc i)
    with Suc.prems Suc.IH[of "snd (scan sc s)" i] show ?thesis by simp
  qed
qed

lemma loop_after_add:
  "loop_after sc comments state offsetDelta n (j + m) v =
     loop_after sc comments state offsetDelta n m
       (loop_after sc comments state offsetDelta n j v)"
  by (induction j arbitrary: v) simp_all

lemma loop_after_tokens_append:
  "\<exists>ts. tokens (w_ret (loop_after sc comments state offsetDelta n m v)) = tokens (w_ret v) @ ts"
proof (induction m arbitrary: v)
  case 0
  show ?case by simp
next
  case (Suc m)
  from Suc.IH[of "loop_next sc comments state offsetDelta n v"]
  show ?case by (auto simp add: loop_next_tokens)
qed

lemma loop_after_tokens_prefix:
  "take (length (tokens (w_ret v)))
     (tokens (w_ret (loop_after sc comments state offsetDelta n m v))) = tokens (w_ret v)"
  using loop_after_tokens_append[of sc comments state offsetDelta n m v] by auto

lemma tokenize_token_of_pass:
  assumes "tokenize sc comments line state offsetDelta stopAtOffset h = Some (Inr (ret, h'))"
    and "j < length (tokens ret)"
    and "line' = fst (prefixed (scanError (objects h state)) line)"
    and "n = snd (prefixed (scanError (objects h state)) line)"
    and "d = (case offsetDelta of None \<Rightarrow> Finite 0 | Some x \<Rightarrow> x)"
    and "v = loop_after sc comments state d n j (loop_entry sc line' state h)"
  shows "\<exists>v'. loop_body sc comments line' state d n v = Continue v'
           \<and> tokens ret ! j = last (tokens (w_ret v'))"
proof -
  define entry where "entry = loop_entry sc line' state h"
  from tokenize_SomeD[OF assms(1)] obtain k where
    e: "ended_after sc comments line' state d n entry (Inr (ret, h')) k"
    unfolding assms(3-5) entry_def by blast
  then have r: "runs sc d k (w_scanner entry)"
    and ret: "ret = w_ret (loop_after sc comments state d n k entry)"
    by (auto simp add: ended_after_def Let_def)
  have k: "length (tokens ret) = k"
    unfolding ret by (simp add: entry_def)
  with assms(2) have jk: "j < k" by simp
  from runs_continues[OF r jk] have "continues sc d (w_scanner v)"
    by (simp add: assms(6) entry_def[symmetric] loop_after_scanner)
  then have b: "loop_body sc comments line' state d n v =
      Continue (loop_next sc comments state d n v)"
    by (simp add: loop_body_eq continues_def)
  obtain m where m: "k = Suc j + m"
    using jk by (metis Suc_leI le_Suc_ex)
  define w where "w = loop_after sc comments state d n (Suc j) entry"
  have w: "w = loop_next sc comments state d n v"
    unfolding w_def assms(6) entry_def[symmetric] by (rule loop_after_Suc_right)
  have lw: "length (tokens (w_ret w)) = Suc j"
    unfolding w_def by (simp add: entry_def del: loop_after.simps)
  have "ret = w_ret (loop_after sc comments state d n m w)"
    unfolding ret m w_def by (simp only: loop_after_add)
  then have "take (Suc j) (tokens ret) = tokens (w_ret w)"
    using loop_after_tokens_prefix[of w sc comments state d n m] by (simp add: lw)
  then have "tokens ret ! j = tokens (w_ret w) ! j"
    by (metis lessI nth_take)
  also have "\<dots> = last (tokens (w_ret w))"
  proof -
    from lw have "tokens (w_ret w) \<noteq> []" by auto
    from last_conv_nth[OF this] lw show ?thesis by simp
  qed
  finally show ?thesis
    using b w by simp
qed

subsection \<open>When a call returns\<close>

text \<open>A call returns exactly when the scanner reports \<open>EOF\<close> after scans that all pass
  the advance check.\<close>

lemma tokenize_returns_iff:
  assumes "delta = (case offsetDelta of None \<Rightarrow> Finite 0 | Some d \<Rightarrow> d)"
    and "s0 = createScanner sc (fst (prefixed (scanError (objects h state)) line))"
  shows "(\<exists>ret h'. tokenize sc comments line state offsetDelta stopAtOffset h
                     = Some (Inr (ret, h')))
     \<longleftrightarrow> (\<exists>k. runs sc delta k s0 \<and> fst (scan sc (scans sc k s0)) = EOF)"
proof
  assume "\<exists>ret h'. tokenize sc comments line state offsetDelta stopAtOffset h
                     = Some (Inr (ret, h'))"
  then obtain ret h' where
    "tokenize sc comments line state offsetDelta stopAtOffset h = Some (Inr (ret, h'))"
    by blast
  from tokenize_SomeD[OF this]
  show "\<exists>k. runs sc delta k s0 \<and> fst (scan sc (scans sc k s0)) = EOF"
    unfolding assms by (auto simp add: ended_after_def Let_def loop_after_scanner)
next
  assume "\<exists>k. runs sc delta k s0 \<and> fst (scan sc (scans sc k s0)) = EOF"
  then obtain k where k: "runs sc delta k s0" "fst (scan sc (scans sc k s0)) = EOF" by blast
  define line' where "line' = fst (prefixed (scanError (objects h state)) line)"
  define n where "n = snd (prefixed (scanError (objects h state)) line)"
  define v where "v = loop_entry sc line' state h"
  from k(1) have r: "runs sc delta k (w_scanner v)"
    by (simp add: v_def line'_def assms(2))
  from k(2) have "fst (scan sc (w_scanner (loop_after sc comments state delta n k v))) = EOF"
    by (simp add: loop_after_scanner v_def line'_def assms(2))
  from tokenize_loop_EOF[OF this] tokenize_loop_runs[OF r]
  have "tokenize_loop sc comments line' state delta n v =
      Some (Inr (w_ret (loop_after sc comments state delta n k v),
                 w_heap (loop_after sc comments state delta n k v)))"
    by simp
  then show "\<exists>ret h'. tokenize sc comments line state offsetDelta stopAtOffset h
                     = Some (Inr (ret, h'))"
    unfolding tokenize_eq assms(1) line'_def n_def v_def by blast
qed


text \<open>Where the sums are exact, the advance check fires exactly when the position is
  the same before and after the scan.\<close>

lemma check_fires_exact:
  assumes "getPosition sc s = Finite p"
    and "getPosition sc (snd (scan sc s)) = Finite p'"
    and "\<bar>d + p\<bar> < 2 ^ 53" and "\<bar>d + p'\<bar> < 2 ^ 53"
  shows "check_fires sc (Finite d) s \<longleftrightarrow> p' = p"
proof -
  have "round_to_double (d + p) = Finite (d + p)" "round_to_double (d + p') = Finite (d + p')"
    using assms(3,4) by (simp_all add: round_to_double_exact)
  then show ?thesis
    using assms(1,2) by (auto simp add: check_fires_def strict_equals_def)
qed

subsection \<open>Closing brackets on an empty stack\<close>

text \<open>
  In any pass of the loop in which the scanner returns a closing brace or bracket (and
  the advance check lets the pass go on) while the working \<open>parents\<close> array is empty, the
  loop goes on, the array is still empty and the token is pushed with its delimiter
  category. The only error a call can throw is the one of the advance check. A call
  returns exactly when the scanner reports end of input after scans that all pass the
  advance check, which depends on the positions and on \<open>offsetDelta\<close> and on no bracket.
  With a scanner that moves strictly forward at every scan and offsets in the range
  where sums are exact, the call returns for every line and every incoming state.
\<close>

lemma close_on_empty_stack:
  assumes "delta = (case offsetDelta of None \<Rightarrow> Finite 0 | Some x \<Rightarrow> x)"
    and "s0 = createScanner sc (fst (prefixed (scanError (objects h state)) line))"
  shows
  "((kind = CloseBraceToken \<or> kind = CloseBracketToken)
      \<and> fst (scan sc (w_scanner v)) = kind
      \<and> \<not> check_fires sc offsetDelta' (w_scanner v)
      \<and> arrays (w_heap v) (w_parents v) = []
    \<longrightarrow> (\<exists>v'. loop_body sc comments line' state' offsetDelta' n v = Continue v'
           \<and> w_parents v' = w_parents v
           \<and> arrays (w_heap v') (w_parents v') = []
           \<and> tokens (w_ret v') = tokens (w_ret v) @ [last (tokens (w_ret v'))]
           \<and> scopes (last (tokens (w_ret v'))) =
               (if kind = CloseBraceToken then TOKEN_DELIM_OBJECT else TOKEN_DELIM_ARRAY)))
   \<and> (tokenize sc comments line state offsetDelta stopAtOffset h = Some (Inl (e, h'))
    \<longrightarrow> (\<exists>pos. e = Error (''Scanner did not advance, next 3 characters are: ''
                  @ substr (fst (prefixed (scanError (objects h state)) line)) pos 3)))
   \<and> ((\<exists>ret h''. tokenize sc comments line state offsetDelta stopAtOffset h
                     = Some (Inr (ret, h'')))
      \<longleftrightarrow> (\<exists>k. runs sc delta k s0 \<and> fst (scan sc (scans sc k s0)) = EOF))
   \<and> (delta = Finite d \<and> strictly_advancing sc s0 \<and> offsets_exact sc d s0
    \<longrightarrow> (\<exists>ret h''. tokenize sc comments line state offsetDelta stopAtOffset h
                     = Some (Inr (ret, h''))))"
proof (intro conjI impI)
  assume a: "(kind = CloseBraceToken \<or> kind = CloseBracketToken)
      \<and> fst (scan sc (w_scanner v)) = kind
      \<and> \<not> check_fires sc offsetDelta' (w_scanner v)
      \<and> arrays (w_heap v) (w_parents v) = []"
  then have "loop_body sc comments line' state' offsetDelta' n v =
          Continue (loop_next sc comments state' offsetDelta' n v)"
    by (auto simp add: loop_body_eq)
  with a show "\<exists>v'. loop_body sc comments line' state' offsetDelta' n v = Continue v'
           \<and> w_parents v' = w_parents v
           \<and> arrays (w_heap v') (w_parents v') = []
           \<and> tokens (w_ret v') = tokens (w_ret v) @ [last (tokens (w_ret v'))]
           \<and> scopes (last (tokens (w_ret v'))) =
               (if kind = CloseBraceToken then TOKEN_DELIM_OBJECT else TOKEN_DELIM_ARRAY)"
    by (auto simp add: loop_next_tokens loop_next_arrays)
next
  assume "tokenize sc comments line state offsetDelta stopAtOffset h = Some (Inl (e, h'))"
  from tokenize_SomeD[OF this]
  show "\<exists>pos. e = Error (''Scanner did not advance, next 3 characters are: ''
                  @ substr (fst (prefixed (scanError (objects h state)) line)) pos 3)"
    by (auto simp add: ended_after_def Let_def)
next
  show "(\<exists>ret h''. tokenize sc comments line state offsetDelta stopAtOffset h
                     = Some (Inr (ret, h'')))
      \<longleftrightarrow> (\<exists>k. runs sc delta k s0 \<and> fst (scan sc (scans sc k s0)) = EOF)"
    by (rule tokenize_returns_iff[OF assms])
next
  assume b: "delta = Finite d \<and> strictly_advancing sc s0 \<and> offsets_exact sc d s0"
  then have "strictly_advancing sc s0" "offsets_exact sc d s0" by simp_all
  from reaches_EOF_runs[OF exact_advance_continues[OF this] exact_advance_reaches_EOF[OF this]]
  have "\<exists>k. runs sc delta k s0 \<and> fst (scan sc (scans sc k s0)) = EOF"
    using b by simp
  then show "\<exists>ret h''. tokenize sc comments line state offsetDelta stopAtOffset h
                     = Some (Inr (ret, h''))"
    unfolding tokenize_returns_iff[OF assms] .
qed

section \<open>The claims\<close>

text \<open>
  Claim C1. In any pass of the loop in which the scanner returns a string literal (and
  the advance check lets the pass go on), the token pushed has the category
  property-name exactly when the working \<open>lastWasColon\<close> is false and the last entry of
  the working \<open>parents\<close> array, taken as \<open>Object\<close> when the array is empty, is \<open>Object\<close>;
  otherwise (flag true, or innermost entry \<open>Array\<close>) it has the category value-string.
  After the pass the working flag, and the flag of the rebuilt \<open>endState\<close>, are false.
  Every token that a call returns was pushed by such a pass (lemma
  \<open>tokenize_token_of_pass\<close>); where sums are exact the advance check lets the pass go on
  exactly when the position has changed (lemma \<open>check_fires_exact\<close>).
\<close>

theorem string_literal_category:
  assumes "fst (scan sc (w_scanner v)) = StringLiteral"
    and "\<not> check_fires sc offsetDelta (w_scanner v)"
  shows "\<exists>v'. loop_body sc comments line state offsetDelta n v = Continue v'
     \<and> tokens (w_ret v') = tokens (w_ret v) @ [last (tokens (w_ret v'))]
     \<and> scopes (last (tokens (w_ret v'))) =
         (if \<not> w_lastWasColon v \<and>
             (if arrays (w_heap v) (w_parents v) = [] then Object
              else last (arrays (w_heap v) (w_parents v))) = Object
          then TOKEN_PROPERTY_NAME else TOKEN_VALUE_STRING)
     \<and> TOKEN_PROPERTY_NAME \<noteq> TOKEN_VALUE_STRING
     \<and> \<not> w_lastWasColon v'
     \<and> \<not> lastWasColon (objects (w_heap v') (endState (w_ret v')))"
proof -
  have "loop_body sc comments line state offsetDelta n v =
          Continue (loop_next sc comments state offsetDelta n v)"
    using assms by (simp add: loop_body_eq)
  moreover have "(if arrays (w_heap v) (w_parents v) = [] then Object
              else last (arrays (w_heap v) (w_parents v))) = Object
      \<longleftrightarrow> \<not> (arrays (w_heap v) (w_parents v) \<noteq> [] \<and> last (arrays (w_heap v) (w_parents v)) = Array)"
    by (cases "last (arrays (w_heap v) (w_parents v))") auto
  ultimately show ?thesis
    using assms(1)
    by (simp add: loop_next_tokens loop_next_objects TOKEN_PROPERTY_NAME_def
        TOKEN_VALUE_STRING_def)
qed

text \<open>\<open>["x"]\<close>: after the bracket, the string is a value although no colon came before.\<close>

theorem string_literal_category_witness:
  \<open>(let sc = scripted 0 sample_lines;
        v = loop_after sc False 0 (Finite 0) 0 1 (loop_entry sc ''["x"]'' 0 (snd (getInitialState heap0)))
    in fst (scan sc (w_scanner v)) = StringLiteral
       \<and> \<not> check_fires sc (Finite 0) (w_scanner v)
       \<and> \<not> w_lastWasColon v \<and> arrays (w_heap v) (w_parents v) = [Array]
       \<and> (\<exists>v'. loop_body sc False ''["x"]'' 0 (Finite 0) 0 v = Continue v'
             \<and> scopes (last (tokens (w_ret v'))) = TOKEN_VALUE_STRING
             \<and> \<not> w_lastWasColon v'))\<close>
proof -
  define sc where "sc = scripted 0 sample_lines"
  define v where
    \<open>v = loop_after sc False 0 (Finite 0) 0 1 (loop_entry sc ''["x"]'' 0 (snd (getInitialState heap0)))\<close>
  have a: "fst (scan sc (w_scanner v)) = StringLiteral"
    "\<not> check_fires sc (Finite 0) (w_scanner v)"
    by (simp_all add: v_def sc_def run_defs)
  have b: "\<not> w_lastWasColon v" "arrays (w_heap v) (w_parents v) = [Array]"
    by (simp_all add: v_def sc_def run_defs)
  from string_literal_category[OF a, of False \<open>''["x"]''\<close> 0 0] a b
  show ?thesis
    unfolding Let_def sc_def[symmetric] v_def[symmetric] by auto
qed

text \<open>
  Claim C2, as amended. When the incoming state has \<open>scanError = UnexpectedEndOfString\<close>
  the scanner is created on the line with one double quote put in front, and for
  \<open>UnexpectedEndOfComment\<close> with the two characters \<open>/*\<close> put in front; otherwise on the
  line itself, with nothing inserted. In a call that returns, the offset reported for
  the first token is \<open>offsetDelta\<close> plus the position the scanner reports before its first
  scan (0 for a scanner that starts at the beginning of its text), and it is never
  reduced; the offset reported for every later token is \<open>offsetDelta\<close> plus the position
  the scanner reports before scanning that token, less the number of inserted
  characters. The sums and differences are those of JavaScript numbers; where they are
  exact (below \<open>2 ^ 53\<close> in magnitude) the offset of token \<open>j\<close> is the integer
  \<open>offsetDelta + position - (if j = 0 then 0 else inserted)\<close>.
\<close>

theorem reported_offsets:
  assumes "tokenize sc comments line state offsetDelta stopAtOffset h = Some (Inr (ret, h'))"
    and "e = scanError (objects h state)"
    and "delta = (case offsetDelta of None \<Rightarrow> Finite 0 | Some d \<Rightarrow> d)"
    and "n = snd (prefixed e line)"
    and "s0 = createScanner sc (fst (prefixed e line))"
  shows "prefixed (Some UnexpectedEndOfString) line = (CHR 0x22 # line, 1)
     \<and> prefixed (Some UnexpectedEndOfComment) line = (''/*'' @ line, 2)
     \<and> (e \<noteq> Some UnexpectedEndOfString \<and> e \<noteq> Some UnexpectedEndOfComment
          \<longrightarrow> prefixed e line = (line, 0))
     \<and> map startIndex (tokens ret) =
         map (\<lambda>j. if j = 0 \<or> n = 0 then num_add delta (getPosition sc (scans sc j s0))
                   else num_sub (num_add delta (getPosition sc (scans sc j s0))) (Finite n))
           [0..<length (tokens ret)]
     \<and> (j < length (tokens ret) \<and> delta = Finite d
          \<and> getPosition sc (scans sc j s0) = Finite p
          \<and> \<bar>d + p\<bar> < 2 ^ 53 \<and> \<bar>d + p - n\<bar> < 2 ^ 53
          \<longrightarrow> startIndex (tokens ret ! j) = Finite (d + p - (if j = 0 then 0 else n)))"
proof -
  define line' where "line' = fst (prefixed e line)"
  from tokenize_returned[OF assms(1)] obtain k where
    ret: "ret = w_ret (loop_after sc comments state delta n k (loop_entry sc line' state h))"
    and k: "length (tokens ret) = k"
    unfolding assms(4) line'_def assms(2,3) by blast
  have n: "0 \<le> n" unfolding assms(4) by (rule prefixed_count_nonneg)
  have "(\<lambda>j. reported_offset delta n (if j = 0 then False else 0 < n)
               (getPosition sc (scans sc j (createScanner sc line')))) =
        (\<lambda>j. if j = 0 \<or> n = 0 then num_add delta (getPosition sc (scans sc j s0))
              else num_sub (num_add delta (getPosition sc (scans sc j s0))) (Finite n))"
    using n by (intro ext) (auto simp add: reported_offset_def assms(5) line'_def)
  then have m: "map startIndex (tokens ret) =
         map (\<lambda>j. if j = 0 \<or> n = 0 then num_add delta (getPosition sc (scans sc j s0))
                   else num_sub (num_add delta (getPosition sc (scans sc j s0))) (Finite n))
           [0..<k]"
    unfolding ret by (simp only: loop_after_startIndex loop_entry_simps list.map append_Nil)
  have x: "startIndex (tokens ret ! j) = Finite (d + p - (if j = 0 then 0 else n))"
    if "j < length (tokens ret) \<and> delta = Finite d
          \<and> getPosition sc (scans sc j s0) = Finite p
          \<and> \<bar>d + p\<bar> < 2 ^ 53 \<and> \<bar>d + p - n\<bar> < 2 ^ 53"
  proof -
    from that have jk: "j < k" by (simp add: k)
    have "startIndex (tokens ret ! j) = map startIndex (tokens ret) ! j"
      using that by simp
    also have "\<dots> = (if j = 0 \<or> n = 0 then num_add delta (getPosition sc (scans sc j s0))
        else num_sub (num_add delta (getPosition sc (scans sc j s0))) (Finite n))"
      unfolding m using jk by simp
    also have "\<dots> = Finite (d + p - (if j = 0 then 0 else n))"
      using that by (auto simp add: round_to_double_exact num_sub_def)
    finally show ?thesis .
  qed
  have "prefixed e line = (line, 0)"
    if "e \<noteq> Some UnexpectedEndOfString \<and> e \<noteq> Some UnexpectedEndOfComment"
    using that by (auto simp add: prefixed_def split: option.splits ScanError.splits)
  with m x show ?thesis
    by (simp add: k prefixed_def)
qed

text \<open>
  The second line of a string left open: after \<open>{"a":"line1\<close> the line \<open>line2"}\<close> is scanned
  as \<open>"line2"}\<close>. With a stub that starts at position 0, the string is reported at offset
  0 and the brace at 7 - 1 = 6, where it stands in \<open>line2"}\<close>.
\<close>

theorem reported_offsets_witness:
  \<open>(let sc = scripted 0 sample_lines in
    case tokenize sc False ''{"a":"line1'' 0 None None (snd (getInitialState heap0)) of
      Some (Inr (ret1, h1)) \<Rightarrow>
        scanError (objects h1 (endState ret1)) = Some UnexpectedEndOfString
        \<and> (\<exists>ret h'. tokenize sc False ''line2"}'' (endState ret1) None None h1
                        = Some (Inr (ret, h'))
              \<and> map startIndex (tokens ret) = [Finite 0, Finite 6]
              \<and> 1 < length (tokens ret)
              \<and> getPosition sc (scans sc 1 (createScanner sc ''"line2"}'')) = Finite 7
              \<and> startIndex (tokens ret ! 1) = Finite (0 + 7 - 1))
    | _ \<Rightarrow> False)\<close>
proof -
  define sc where "sc = scripted 0 sample_lines"
  define v1 where \<open>v1 = loop_after sc False 0 (Finite 0) 0 4
      (loop_entry sc ''{"a":"line1'' 0 (snd (getInitialState heap0)))\<close>
  define v2 where \<open>v2 = loop_after sc False (endState (w_ret v1)) (Finite 0) 1 2
      (loop_entry sc ''"line2"}'' (endState (w_ret v1)) (w_heap v1))\<close>
  have t1: \<open>tokenize sc False ''{"a":"line1'' 0 None None (snd (getInitialState heap0))
      = Some (Inr (w_ret v1, w_heap v1))\<close>
    by (simp add: v1_def sc_def run_defs tokenize_loop.simps eval_nat_numeral)
  have e: "scanError (objects (w_heap v1) (endState (w_ret v1))) = Some UnexpectedEndOfString"
    by (simp add: v1_def sc_def run_defs eval_nat_numeral)
  have t2: \<open>tokenize sc False ''line2"}'' (endState (w_ret v1)) None None (w_heap v1)
      = Some (Inr (w_ret v2, w_heap v2))\<close>
    unfolding tokenize_eq e
    by (simp add: v2_def sc_def prefixed_def loop_body_eq tokenize_loop.simps sample_lines_def
        eval_nat_numeral number_defs)
  have l: "length (tokens (w_ret v2)) = 2"
    by (simp add: v2_def)
  have p: \<open>getPosition sc (scans sc 1 (createScanner sc ''"line2"}'')) = Finite 7\<close>
    by (simp add: sc_def sample_lines_def)
  note r = reported_offsets[OF t2 e[symmetric] refl refl refl, where j = 1 and d = 0 and p = 7]
  from r have m: "map startIndex (tokens (w_ret v2)) = [Finite 0, Finite 6]"
    by (simp add: l sc_def prefixed_def sample_lines_def eval_nat_numeral num_sub_def
        round_to_double_exact)
  from r l p have x: "startIndex (tokens (w_ret v2) ! 1) = Finite (0 + 7 - 1)"
    by (simp add: prefixed_def)
  from t1 t2 e m l p x show ?thesis
    unfolding Let_def sc_def[symmetric] by simp
qed

text \<open>
  The claim as it stands says that the first token's offset is corrected too when the
  scanner reports a position other than 0. With a stub whose position is 1 before its
  first scan, the same second line has its first token reported at offset 1, the
  position as it is, and not at 1 - 1 = 0.
\<close>

theorem first_offset_counterexample:
  \<open>(case tokenize (scripted 0 sample_lines) False ''{"a":"line1'' 0 None None
           (snd (getInitialState heap0)) of
      Some (Inr (ret1, h1)) \<Rightarrow>
        returned_tokens (tokenize (scripted 1 sample_lines) False ''line2"}''
                           (endState ret1) None None h1)
    | _ \<Rightarrow> None)
   = Some [(Finite 1, ''string.key.json''), (Finite 6, ''delimiter.bracket.json'')]\<close>
proof -
  define sc where "sc = scripted 0 sample_lines"
  define v1 where \<open>v1 = loop_after sc False 0 (Finite 0) 0 4
      (loop_entry sc ''{"a":"line1'' 0 (snd (getInitialState heap0)))\<close>
  have t1: \<open>tokenize sc False ''{"a":"line1'' 0 None None (snd (getInitialState heap0))
      = Some (Inr (w_ret v1, w_heap v1))\<close>
    by (simp add: v1_def sc_def run_defs tokenize_loop.simps eval_nat_numeral)
  have e: "scanError (objects (w_heap v1) (endState (w_ret v1))) = Some UnexpectedEndOfString"
    "lastWasColon (objects (w_heap v1) (endState (w_ret v1))) = False"
    "arrays (w_heap v1) (parents (objects (w_heap v1) (endState (w_ret v1)))) = [Object]"
    by (simp_all add: v1_def sc_def run_defs eval_nat_numeral)
  have \<open>returned_tokens (tokenize (scripted 1 sample_lines) False ''line2"}''
                           (endState (w_ret v1)) None None (w_heap v1))
     = Some [(Finite 1, ''string.key.json''), (Finite 6, ''delimiter.bracket.json'')]\<close>
    unfolding tokenize_eq e
    by (simp add: prefixed_def loop_body_eq tokenize_loop.simps sample_lines_def
        returned_tokens_def loop_next_tokens loop_next_arrays loop_entry_arrays e TOKEN_defs
        number_defs)
  with t1 show ?thesis
    unfolding sc_def[symmetric] by simp
qed







text \<open>
  Claim C5. For all states \<open>a\<close> and \<open>b\<close>, \<open>a.equals(b)\<close> is true exactly when the two
  objects have the same \<open>scanError\<close>, the same \<open>lastWasColon\<close> and \<open>parents\<close> arrays
  with the same elements in the same order (so also the same length); a state equals
  itself through the reference test; and whatever the host stores in the \<open>_state\<close>
  field of either object, the result is the same.
\<close>

theorem equals_compares_tokenizer_fields:
  "equals h a (JSONStateRef b) =
     (scanError (objects h a) = scanError (objects h b) \<and>
      lastWasColon (objects h a) = lastWasColon (objects h b) \<and>
      arrays h (parents (objects h a)) = arrays h (parents (objects h b)))
   \<and> equals h a (JSONStateRef a)
   \<and> equals (setStateData (setStateData h a x) b y) a (JSONStateRef b)
       = equals h a (JSONStateRef b)"
  by (auto simp: equals_def areArraysEqual_iff setStateData_def)


text \<open>
  Claim C7. With a scanner that reports end of input at once on the empty text,
  tokenizing the empty line with the state made by \<open>getInitialState\<close> returns an empty
  token list and an \<open>endState\<close> that \<open>equals\<close> the initial state, in either direction.
\<close>

theorem empty_line_from_initial_state:
  assumes "fst (scan sc (createScanner sc [])) = EOF"
  shows "case getInitialState h of (init, h1) \<Rightarrow>
           (case tokenize sc comments [] init offsetDelta stopAtOffset h1 of
              Some (Inr (ret, h2)) \<Rightarrow>
                tokens ret = [] \<and> equals h2 (endState ret) (JSONStateRef init)
                \<and> equals h2 init (JSONStateRef (endState ret))
            | _ \<Rightarrow> False)"
proof -
  obtain init h1 where g: "getInitialState h = (init, h1)" by (cases "getInitialState h")
  then have init: "scanError (objects h1 init) = None" "lastWasColon (objects h1 init) = False"
    "init \<noteq> objects_next h1"
    by (auto simp: getInitialState_def new_Array_def new_JSONState_def Let_def)
  have p: "prefixed None [] = ([], 0)" by (simp add: prefixed_def)
  have "tokenize sc comments [] init offsetDelta stopAtOffset h1 =
          Some (Inr (w_ret (loop_entry sc [] init h1), w_heap (loop_entry sc [] init h1)))"
    by (simp add: tokenize_eq init p tokenize_loop_EOF assms)
  then show ?thesis
    using init by (simp add: g equals_def areArraysEqual_def loop_entry_objects)
qed

text \<open>The stub scanner has no token on the empty text.\<close>

theorem empty_line_from_initial_state_witness:
  "fst (scan (scripted 0 sample_lines) (createScanner (scripted 0 sample_lines) [])) = EOF \<and>
   (case getInitialState heap0 of (init, h1) \<Rightarrow>
      (case tokenize (scripted 0 sample_lines) False [] init None None h1 of
         Some (Inr (ret, h2)) \<Rightarrow>
           tokens ret = [] \<and> equals h2 (endState ret) (JSONStateRef init)
           \<and> equals h2 init (JSONStateRef (endState ret))
       | _ \<Rightarrow> False))"
proof -
  have e: "fst (scan (scripted 0 sample_lines) (createScanner (scripted 0 sample_lines) [])) = EOF"
    by (simp add: scripted_def sample_lines_def)
  from e empty_line_from_initial_state[OF e, where h = heap0 and comments = False
      and offsetDelta = None and stopAtOffset = None] show ?thesis
    by simp
qed

text \<open>
  Claim C8. In any pass of the loop in which the scanner returns a line comment or a
  block comment (and the advance check lets the pass go on), the token pushed has the
  category comment-line (for a block comment, comment-block) if the \<open>comments\<close> flag is
  true and the empty category if it is false; so it has the comment category exactly
  when the flag is true. In both cases the working \<open>lastWasColon\<close> and the working
  \<open>parents\<close> array stay as they were.
  The flag is the argument of \<open>createTokenizationSupport\<close>, handed unchanged to every
  call and to every pass of its loop.
\<close>

theorem comment_category_follows_flag:
  assumes "kind = LineCommentTrivia \<or> kind = BlockCommentTrivia"
    and "fst (scan sc (w_scanner v)) = kind"
    and "\<not> check_fires sc offsetDelta (w_scanner v)"
  shows "\<exists>v'. loop_body sc comments line state offsetDelta n v = Continue v'
     \<and> tokens (w_ret v') = tokens (w_ret v) @ [last (tokens (w_ret v'))]
     \<and> scopes (last (tokens (w_ret v'))) =
         (if comments
          then (if kind = LineCommentTrivia then TOKEN_COMMENT_LINE else TOKEN_COMMENT_BLOCK)
          else [])
     \<and> TOKEN_COMMENT_LINE \<noteq> [] \<and> TOKEN_COMMENT_BLOCK \<noteq> []
     \<and> w_lastWasColon v' = w_lastWasColon v
     \<and> w_parents v' = w_parents v
     \<and> arrays (w_heap v') (w_parents v') = arrays (w_heap v) (w_parents v)
     \<and> provider_tokenize sc comments line state od stop h =
         tokenize sc comments line state od stop h"
proof -
  have "loop_body sc comments line state offsetDelta n v =
          Continue (loop_next sc comments state offsetDelta n v)"
    using assms by (auto simp add: loop_body_eq)
  then show ?thesis
    using assms(1,2)
    by (auto simp add: loop_next_tokens loop_next_arrays TOKEN_COMMENT_LINE_def
        TOKEN_COMMENT_BLOCK_def provider_tokenize_def)
qed

text \<open>The line \<open>// hi\<close> with the flag on and off.\<close>

theorem comment_category_follows_flag_witness:
  \<open>returned_tokens (provider_tokenize (scripted 0 sample_lines) True ''// hi''
      (fst (getInitialState heap0)) None None (snd (getInitialState heap0)))
     = Some [(Finite 0, ''comment.line.json'')]
   \<and> returned_tokens (provider_tokenize (scripted 0 sample_lines) False ''// hi''
      (fst (getInitialState heap0)) None None (snd (getInitialState heap0)))
     = Some [(Finite 0, [])]
   \<and> (let sc = scripted 0 sample_lines;
          v = loop_entry sc ''// hi'' 0 (snd (getInitialState heap0))
      in fst (scan sc (w_scanner v)) = LineCommentTrivia
         \<and> \<not> check_fires sc (Finite 0) (w_scanner v)
         \<and> (\<exists>v'. loop_body sc True ''// hi'' 0 (Finite 0) 0 v = Continue v'
               \<and> scopes (last (tokens (w_ret v'))) = TOKEN_COMMENT_LINE
               \<and> w_lastWasColon v' = w_lastWasColon v
               \<and> arrays (w_heap v') (w_parents v') = arrays (w_heap v) (w_parents v)))\<close>
proof -
  define sc where "sc = scripted 0 sample_lines"
  define v where \<open>v = loop_entry sc ''// hi'' 0 (snd (getInitialState heap0))\<close>
  have a: "LineCommentTrivia = LineCommentTrivia \<or> LineCommentTrivia = BlockCommentTrivia"
    "fst (scan sc (w_scanner v)) = LineCommentTrivia"
    "\<not> check_fires sc (Finite 0) (w_scanner v)"
    by (simp_all add: v_def sc_def run_defs)
  have b: \<open>returned_tokens (provider_tokenize sc True ''// hi''
      (fst (getInitialState heap0)) None None (snd (getInitialState heap0)))
     = Some [(Finite 0, ''comment.line.json'')]\<close>
    \<open>returned_tokens (provider_tokenize sc False ''// hi''
      (fst (getInitialState heap0)) None None (snd (getInitialState heap0)))
     = Some [(Finite 0, [])]\<close>
    by (simp_all add: sc_def provider_tokenize_def run_defs tokenize_loop.simps TOKEN_defs)
  from comment_category_follows_flag[OF a, of True \<open>''// hi''\<close> 0 0 None None heap0] a b
  show ?thesis
    unfolding Let_def sc_def[symmetric] v_def[symmetric] by auto
qed

text \<open>
  Claim C9. A call of \<open>tokenize\<close> that ends, by returning or by throwing, leaves the
  incoming state object as it was: the object \<open>state\<close> has the same \<open>scanError\<close>,
  \<open>lastWasColon\<close>, \<open>parents\<close> reference and \<open>_state\<close> as before, and the array its
  \<open>parents\<close> points to has the same elements. The same holds for every object and every
  array that existed before the call; the \<open>endState\<close> returned is an object that did not
  exist before.
\<close>

theorem incoming_state_is_left_unchanged:
  assumes "tokenize sc comments line state offsetDelta stopAtOffset h = Some r"
    and "state < objects_next h"
    and "parents (objects h state) < arrays_next h"
  shows "objects (final_heap r) state = objects h state
     \<and> arrays (final_heap r) (parents (objects (final_heap r) state))
         = arrays h (parents (objects h state))
     \<and> (a < objects_next h \<longrightarrow> objects (final_heap r) a = objects h a)
     \<and> (b < arrays_next h \<longrightarrow> arrays (final_heap r) b = arrays h b)
     \<and> (r = Inr (ret, h') \<longrightarrow> objects_next h \<le> endState ret)"
proof -
  have 1: "objects (final_heap r) state = objects h state"
    by (rule tokenize_frame(1)[OF assms(1,2)])
  have 2: "arrays (final_heap r) (parents (objects h state))
         = arrays h (parents (objects h state))"
    by (rule tokenize_frame(2)[OF assms(1,3)])
  have 3: "objects_next h \<le> endState ret" if "r = Inr (ret, h')"
  proof -
    from tokenize_returned[OF assms(1)[unfolded that]] obtain k v where
      v: "v = loop_after sc comments state
                 (case offsetDelta of None \<Rightarrow> Finite 0 | Some d \<Rightarrow> d)
                 (snd (prefixed (scanError (objects h state)) line)) k
                 (loop_entry sc (fst (prefixed (scanError (objects h state)) line)) state h)"
      "ret = w_ret v" by blast
    show ?thesis
      unfolding v by (cases k) (simp_all add: loop_after_endState del: loop_after.simps(2))
  qed
  from 1 2 3 tokenize_frame[OF assms(1)] show ?thesis by simp
qed

text \<open>The line \<open>{"a":"line1\<close> tokenized from the initial state, object 0 with array 0.\<close>

theorem incoming_state_is_left_unchanged_witness:
  \<open>(let sc = scripted 0 sample_lines; h = snd (getInitialState heap0)
    in 0 < objects_next h \<and> parents (objects h 0) < arrays_next h
       \<and> (\<exists>r. tokenize sc False ''{"a":"line1'' 0 None None h = Some r
             \<and> objects (final_heap r) 0 = objects h 0
             \<and> arrays (final_heap r) (parents (objects (final_heap r) 0)) = []))\<close>
proof -
  define sc where "sc = scripted 0 sample_lines"
  define h where "h = snd (getInitialState heap0)"
  have a: "0 < objects_next h" "parents (objects h 0) < arrays_next h"
    "arrays h (parents (objects h 0)) = []"
    by (simp_all add: h_def run_defs)
  have \<open>tokenize sc False ''{"a":"line1'' 0 None None h \<noteq> None\<close>
    by (simp add: sc_def h_def run_defs tokenize_loop.simps)
  then obtain r where r: \<open>tokenize sc False ''{"a":"line1'' 0 None None h = Some r\<close>
    by blast
  from incoming_state_is_left_unchanged[OF r a(1,2)] a r show ?thesis
    unfolding Let_def sc_def[symmetric] h_def[symmetric] by auto
qed

text \<open>
  Claim C10. The state made by \<open>getInitialState\<close> has \<open>scanError\<close> \<open>null\<close>. The
  \<open>endState\<close> of a call that returned at least one token stores the scanner's
  \<open>getTokenError()\<close> as it was after the last token was scanned, which is a member of
  the scanner's error enum and never \<open>null\<close>. So such an \<open>endState\<close> does not equal, in
  either direction, a state whose \<open>scanError\<close> is \<open>null\<close> as the initial state's is,
  whatever its flag and its bracket stack are.
\<close>

theorem endState_after_a_token_differs_from_initial:
  assumes "tokenize sc comments line state offsetDelta stopAtOffset h = Some (Inr (ret, h'))"
    and "tokens ret \<noteq> []"
    and "init < objects_next h"
    and "scanError (objects h init) = None"
  shows "scanError (objects (snd (getInitialState h0)) (fst (getInitialState h0))) = None
     \<and> scanError (objects h' (endState ret)) =
         Some (getTokenError sc (scans sc (length (tokens ret))
                 (createScanner sc (fst (prefixed (scanError (objects h state)) line)))))
     \<and> \<not> equals h' (endState ret) (JSONStateRef init)
     \<and> \<not> equals h' init (JSONStateRef (endState ret))"
proof -
  define d where "d = (case offsetDelta of None \<Rightarrow> Finite 0 | Some x \<Rightarrow> x)"
  define n where "n = snd (prefixed (scanError (objects h state)) line)"
  define line' where "line' = fst (prefixed (scanError (objects h state)) line)"
  from tokenize_returned[OF assms(1)] obtain k where
    ret: "ret = w_ret (loop_after sc comments state d n k (loop_entry sc line' state h))"
    and h': "h' = w_heap (loop_after sc comments state d n k (loop_entry sc line' state h))"
    and k: "length (tokens ret) = k"
    unfolding d_def n_def line'_def by blast
  from k assms(2) obtain j where j: "k = Suc j" by (cases k) auto
  have 0: "scanError (objects (snd (getInitialState h0)) (fst (getInitialState h0))) = None"
    by (simp add: getInitialState_def new_Array_def new_JSONState_def Let_def)
  have 1: "scanError (objects h' (endState ret)) =
         Some (getTokenError sc (scans sc k (createScanner sc line')))"
    unfolding ret h' j by (simp add: loop_after_endState_scanError del: loop_after.simps scans.simps)
  have "final_heap (Inr (ret, h')) = h'" by (simp add: final_heap_def)
  with tokenize_frame(1)[OF assms(1,3)] have "objects h' init = objects h init" by simp
  with assms(4) have 2: "scanError (objects h' init) = None" by simp
  from 0 1 2 show ?thesis
    by (auto simp add: equals_def k line'_def)
qed

text \<open>The line \<open>{"a":1}\<close> tokenized from the initial state: the bracket stack is empty
  again, the flag is false, no scan error, and yet the states differ.\<close>

theorem endState_after_a_token_differs_from_initial_witness:
  \<open>(let sc = scripted 0 sample_lines; h = snd (getInitialState heap0)
    in 0 < objects_next h \<and> scanError (objects h 0) = None
       \<and> (\<exists>ret h'. tokenize sc False ''{"a":1}'' 0 None None h = Some (Inr (ret, h'))
             \<and> tokens ret \<noteq> []
             \<and> scanError (objects h' (endState ret)) = Some ScanError_None
             \<and> lastWasColon (objects h' (endState ret)) = False
             \<and> arrays h' (parents (objects h' (endState ret))) = []
             \<and> \<not> equals h' (endState ret) (JSONStateRef 0)
             \<and> \<not> equals h' 0 (JSONStateRef (endState ret))))\<close>
proof -
  define sc where "sc = scripted 0 sample_lines"
  define h where "h = snd (getInitialState heap0)"
  define v where \<open>v = loop_after sc False 0 (Finite 0) 0 5 (loop_entry sc ''{"a":1}'' 0 h)\<close>
  have a: "0 < objects_next h" "scanError (objects h 0) = None"
    by (simp_all add: h_def run_defs)
  have t: \<open>tokenize sc False ''{"a":1}'' 0 None None h = Some (Inr (w_ret v, w_heap v))\<close>
    by (simp add: v_def sc_def h_def run_defs tokenize_loop.simps eval_nat_numeral)
  have b: "tokens (w_ret v) \<noteq> []"
    "lastWasColon (objects (w_heap v) (endState (w_ret v))) = False"
    "arrays (w_heap v) (parents (objects (w_heap v) (endState (w_ret v)))) = []"
    "length (tokens (w_ret v)) = 5"
    by (simp_all add: v_def sc_def h_def run_defs eval_nat_numeral)
  have c: \<open>getTokenError sc (scans sc 5 (createScanner sc ''{"a":1}'')) = ScanError_None\<close>
    by (simp add: sc_def sample_lines_def eval_nat_numeral)
  have p: \<open>fst (prefixed (scanError (objects h 0)) ''{"a":1}'') = ''{"a":1}''\<close>
    by (simp add: a prefixed_def)
  from endState_after_a_token_differs_from_initial[OF t b(1) a] a t b c p
  show ?thesis
    unfolding Let_def sc_def[symmetric] h_def[symmetric] by auto
qed

end
